theory Spec2Isabelle
  imports Complex_Main "HOL-Library.Word"
begin

unbundle bit_operations_syntax

section \<open>Byte framing: the common low level functions of the decoder back-ends\<close>

text \<open>
  \<^verbatim>\<open>DecoderBackend.h\<close> holds three inline functions on the 13-bit representation of a
  framed byte (LSB first: start bit, eight data bits, parity bit, three stop bits). The
  argument is a \<^verbatim>\<open>uint16_t\<close>, a 16-bit word here; \<^verbatim>\<open>uint8_t\<close> is an 8-bit word, and a
  C \<^verbatim>\<open>int\<close> that only ever holds 0 or 1 is an \<^typ>\<open>int\<close>.
\<close>

text \<open>Xor together bits in byte. Each \<^verbatim>\<open>x ^= (x>>k)\<close> is truncated to \<^verbatim>\<open>uint8_t\<close> again.\<close>

definition parity8 :: "8 word \<Rightarrow> int" where
  "parity8 x0 =
     (let x1 = x0 XOR drop_bit 4 x0;
          x2 = x1 XOR drop_bit 2 x1;
          x3 = x2 XOR drop_bit 1 x2
      in uint (x3 AND 1))"

text \<open>Only the first two stop bits (bits 10 and 11) are checked, with the start bit.\<close>

definition is_sync_ok :: "16 word \<Rightarrow> bool" where
  "is_sync_ok z = (z AND 0x0c01 = 0x0c00)"

definition is_parity_ok :: "16 word \<Rightarrow> bool" where
  "is_parity_ok z =
     (let byte = (ucast (drop_bit 1 z AND 255) :: 8 word);
          parity = uint (drop_bit 9 z AND 1);
          expected_parity = (if parity8 byte = 0 then 1 else 0)
      in parity = expected_parity)"

definition get_data_bits :: "16 word \<Rightarrow> 8 word" where
  "get_data_bits z = ucast (drop_bit 1 z AND 255)"

section \<open>Decoded bytes and the back-ends that emit them\<close>

text \<open>
  \<^verbatim>\<open>struct DecodedByte\<close>. The time is a \<^verbatim>\<open>double\<close> in the source; the code only
  compares times of different bytes, and on the finite values a decoder produces that
  order is the order of the reals, so \<^typ>\<open>real\<close> stands for it.
\<close>

record DecodedByte =
  time :: real
  slow :: bool
  byte :: "8 word"
  parity_error :: bool
  sync_error :: bool


text \<open>A byte without errors, as \<^verbatim>\<open>TrivialDecoder::DecodeByte\<close> fills it from an archive.\<close>

definition clean_byte :: "real \<Rightarrow> bool \<Rightarrow> 8 word \<Rightarrow> DecodedByte" where
  "clean_byte t s v = \<lparr> time = t, slow = s, byte = v, parity_error = False, sync_error = False \<rparr>"







section \<open>The tape encoder\<close>

text \<open>
  \<^verbatim>\<open>TapeEncoder\<close> writes a square wave through a cosine ramp. The sample values are
  floating point and are not modelled; what is modelled is the sequence of levels handed
  to \<^verbatim>\<open>EmitBit\<close> (field \<open>m_levels\<close>, one entry per call), the ramp phase and the number of
  samples \<^verbatim>\<open>EmitSample\<close> was called for (field \<open>m_samples\<close>).
\<close>

abbreviation (input) ENCODER_RATE :: int where "ENCODER_RATE \<equiv> 44100"
abbreviation (input) RAMP_LEN :: int where "RAMP_LEN \<equiv> 441"
abbreviation (input) RAMP_STEP :: int where "RAMP_STEP \<equiv> 48"

record TapeEncoder =
  m_enc_slow :: bool
  m_last_bit :: bool
  m_ramp_phase :: int
  m_levels :: "bool list"
  m_samples :: int

text \<open>The loop of \<^verbatim>\<open>RampTo\<close>: one sample per pass, the phase advancing by \<^verbatim>\<open>RAMP_STEP\<close>.\<close>

function RampTo_loop :: "int \<Rightarrow> int \<Rightarrow> int \<times> int" where
  "RampTo_loop phase n =
     (if phase < RAMP_LEN then RampTo_loop (phase + RAMP_STEP) (n + 1) else (phase, n))"
  by pat_completeness auto
termination
  by (relation "measure (\<lambda>(phase, n). nat (RAMP_LEN - phase))") auto

declare RampTo_loop.simps [simp del]

definition RampTo :: "TapeEncoder \<Rightarrow> TapeEncoder" where
  "RampTo e =
     (let (phase, n) = RampTo_loop (m_ramp_phase e) (m_samples e)
      in e\<lparr> m_ramp_phase := phase - RAMP_LEN, m_samples := n \<rparr>)"

definition EmitBit :: "bool \<Rightarrow> TapeEncoder \<Rightarrow> TapeEncoder" where
  "EmitBit val e = (RampTo e)\<lparr> m_levels := m_levels e @ [val], m_last_bit := val \<rparr>"

text \<open>
  \<^verbatim>\<open>EncodeBit\<close>: in the slow format sixteen levels, \<^verbatim>\<open>val ? !(i&1) : !(i&2)\<close> xor the
  polarity; in the fast format two levels, three for a zero bit.
\<close>

definition EncodeBit :: "bool \<Rightarrow> TapeEncoder \<Rightarrow> TapeEncoder" where
  "EncodeBit val e =
     (let polarity = m_last_bit e
      in if m_enc_slow e
         then fold (\<lambda>i. EmitBit ((if val then i AND 1 = 0 else i AND 2 = 0) \<noteq> polarity))
                   [0..15] e
         else (let e1 = EmitBit (\<not> polarity) e;
                   e2 = EmitBit polarity e1
               in if \<not> val then EmitBit polarity e2 else e2))"

text \<open>
  \<^verbatim>\<open>EncodeByte\<close> calls \<^verbatim>\<open>EncodeBit\<close> thirteen times; the values it passes depend on the
  byte only: the start bit, the data bits \<^verbatim>\<open>(byte>>i)&1\<close> for \<open>i = 0..7\<close>, the parity that
  starts as true and is xored with every data bit, and three stop bits.
\<close>

definition EncodeByte_bits :: "8 word \<Rightarrow> bool list" where
  "EncodeByte_bits b =
     (let bits = map (\<lambda>i. bit b i) [0..<8];
          parity = foldl (\<lambda>p v. p \<noteq> v) True bits
      in [False] @ bits @ [parity] @ [True, True, True])"

definition EncodeByte :: "8 word \<Rightarrow> TapeEncoder \<Rightarrow> TapeEncoder" where
  "EncodeByte b e =
     (let e' = fold EncodeBit (EncodeByte_bits b) e
      in EmitBit (\<not> m_last_bit e') e')"


text \<open>The lengths of the maximal runs of equal levels in a square wave, after a level \<open>l\<close>.\<close>

fun half_cycles :: "bool \<Rightarrow> nat \<Rightarrow> bool list \<Rightarrow> nat list" where
  "half_cycles l n [] = (if n = 0 then [] else [n])"
| "half_cycles l n (v # vs) =
     (if v = l then half_cycles l (Suc n) vs
      else (if n = 0 then [] else [n]) @ half_cycles v 1 vs)"

text \<open>
  The switching rate is \<^verbatim>\<open>ENCODER_RATE * RAMP_STEP / RAMP_LEN\<close> = 4800 levels per second
  (``Step to take for 4800 Hz switching rate''), so a square wave whose half-cycles last
  \<open>h\<close> levels has the frequency \<open>4800 / (2 h)\<close> Hz.
\<close>

definition half_cycle_hz :: "nat \<Rightarrow> int" where
  "half_cycle_hz h = (ENCODER_RATE * RAMP_STEP div RAMP_LEN) div (2 * int h)"

text \<open>The encoder as \<^verbatim>\<open>Open\<close> leaves it, before the first byte.\<close>

definition opened_encoder :: "bool \<Rightarrow> TapeEncoder" where
  "opened_encoder s =
     \<lparr> m_enc_slow = s, m_last_bit = False, m_ramp_phase = 0, m_levels = [], m_samples = 0 \<rparr>"

text \<open>
  The last step of \<^verbatim>\<open>Demodulator::Read\<close> on one sample: the demodulated magnitude of the
  band against the smoothed threshold, signed so that a one bit is the positive
  direction. \<^verbatim>\<open>Demodulator::Demodulator\<close> takes \<^verbatim>\<open>f_ref_hz/2\<close> as the carrier of the high
  band and \<^verbatim>\<open>f_ref_hz/4\<close> as the carrier of the low band.
\<close>

definition carrier_hz :: "int \<Rightarrow> bool \<Rightarrow> int" where
  "carrier_hz f_ref_hz use_high_band = f_ref_hz div (if use_high_band then 2 else 4)"

definition Demodulator_balance :: "bool \<Rightarrow> real \<Rightarrow> real \<Rightarrow> real" where
  "Demodulator_balance use_high_band demod threshold =
     (if use_high_band then demod - threshold else threshold - demod)"

section \<open>Tape files and the tape parser\<close>

text \<open>
  \<^verbatim>\<open>struct TapeFile\<close>. A fixed-size C array is a function from the index to the byte; the
  parser checks every index it writes at with an assertion, and the model keeps those
  assertions as failures. The counters are C \<^verbatim>\<open>int\<close>s that count bytes of one tape and are
  far from overflow, so they are \<^typ>\<open>int\<close>. The field \<^verbatim>\<open>slow\<close> of the file is
  \<open>file_slow\<close> here, since the decoded byte has a field of that name.
\<close>

record TapeFile =
  header :: "int \<Rightarrow> 8 word"
  start_addr :: "16 word"
  end_addr :: "16 word"
  len :: int
  basic :: bool
  autorun :: bool
  file_slow :: bool
  name :: "int \<Rightarrow> 8 word"
  payload :: "int \<Rightarrow> 8 word"
  sync_errors :: int
  parity_errors :: int
  start_time :: real
  end_time :: real

text \<open>What \<^verbatim>\<open>memset(&file, 0, sizeof(file))\<close> leaves.\<close>

definition zero_file :: TapeFile where
  "zero_file =
     \<lparr> header = (\<lambda>i. 0), start_addr = 0, end_addr = 0, len = 0, basic = False,
       autorun = False, file_slow = False, name = (\<lambda>i. 0), payload = (\<lambda>i. 0),
       sync_errors = 0, parity_errors = 0, start_time = 0, end_time = 0 \<rparr>"

abbreviation (input) ST_SYNC :: int where "ST_SYNC \<equiv> 0"
abbreviation (input) ST_HEADER :: int where "ST_HEADER \<equiv> 1"
abbreviation (input) ST_NAME :: int where "ST_NAME \<equiv> 2"

text \<open>
  \<^verbatim>\<open>class TapeParser\<close>. \<^verbatim>\<open>OnFile\<close> is the virtual observer that receives every file the
  parser produces; \<open>on_file\<close> is the list of the files it was called with, oldest first.
  The verbose log and its hex dump buffer (\<^verbatim>\<open>m_verbose\<close>, \<^verbatim>\<open>m_printbuf\<close>) only print and
  are left out.
\<close>

record TapeParser =
  m_section_type :: int
  m_section_offs :: int
  m_slow :: bool
  m_consecutive_non_16 :: int
  m_consecutive_bad_bytes :: int
  m_scout_file :: TapeFile
  m_payload_active :: bool
  m_payload_offs :: int
  m_payload_file :: TapeFile
  m_last_time :: real
  on_file :: "TapeFile list"

definition Reset :: "TapeParser \<Rightarrow> TapeParser" where
  "Reset p =
     p\<lparr> m_section_type := ST_SYNC,
        m_section_offs := 0,
        m_slow := False,
        m_consecutive_non_16 := 100,
        m_consecutive_bad_bytes := 100,
        m_payload_active := False,
        m_payload_offs := 0,
        m_scout_file := zero_file,
        m_payload_file := zero_file \<rparr>"

text \<open>The constructor: \<^verbatim>\<open>Reset()\<close>, with \<^verbatim>\<open>m_last_time = 0\<close> and no file produced yet.\<close>

definition new_TapeParser :: TapeParser where
  "new_TapeParser =
     \<lparr> m_section_type = ST_SYNC, m_section_offs = 0, m_slow = False,
       m_consecutive_non_16 = 100, m_consecutive_bad_bytes = 100,
       m_scout_file = zero_file, m_payload_active = False, m_payload_offs = 0,
       m_payload_file = zero_file, m_last_time = 0, on_file = [] \<rparr>"

definition IsIdle :: "TapeParser \<Rightarrow> bool" where
  "IsIdle p = (m_section_type p = ST_SYNC \<and> \<not> m_payload_active p)"

definition OnFile :: "TapeFile \<Rightarrow> TapeParser \<Rightarrow> TapeParser" where
  "OnFile f p = p\<lparr> on_file := on_file p @ [f] \<rparr>"

text \<open>
  Counting the errors of a byte in mutually exclusive categories, as the parser does in
  its payload, header and name branches:
  \<^verbatim>\<open>sync_errors += b.sync_error; parity_errors += b.parity_error && !b.sync_error\<close>.
\<close>

definition count_errors :: "DecodedByte \<Rightarrow> TapeFile \<Rightarrow> TapeFile" where
  "count_errors b f =
     f\<lparr> sync_errors := sync_errors f + (if sync_error b then 1 else 0),
        parity_errors := parity_errors f + (if parity_error b \<and> \<not> sync_error b then 1 else 0) \<rparr>"

abbreviation (input) payload_capacity :: int where "payload_capacity \<equiv> 64 * 1024"
abbreviation (input) header_capacity :: int where "header_capacity \<equiv> 9"
abbreviation (input) name_capacity :: int where "name_capacity \<equiv> 16 + 1"

text \<open>
  The padding loop of \<^verbatim>\<open>FlushPayload\<close>, \<^verbatim>\<open>while (missing_bytes--)\<close>, on the number of
  missing bytes, the payload offset and the file. \<open>None\<close> is a failed assertion.
\<close>

function pad_payload :: "int \<Rightarrow> int \<Rightarrow> TapeFile \<Rightarrow> (int \<times> TapeFile) option" where
  "pad_payload missing_bytes offs f =
     (if missing_bytes = 0 then Some (offs, f)
      else if \<not> (0 \<le> offs \<and> offs < payload_capacity) then None
      else pad_payload (missing_bytes - 1) (offs + 1)
             (f\<lparr> payload := (payload f)(offs := 0xcd),
                 sync_errors := sync_errors f + 1,
                 parity_errors := parity_errors f + 1 \<rparr>))"
  by pat_completeness auto
termination
  by (relation "measure (\<lambda>(m, offs, f).
        if 0 \<le> m then nat m else nat (payload_capacity - offs))") auto

declare pad_payload.simps [simp del]

text \<open>Truncate and output current file in payload processing.\<close>

definition FlushPayload :: "TapeParser \<Rightarrow> TapeParser option" where
  "FlushPayload p =
     (if m_payload_active p
      then (case pad_payload (len (m_payload_file p) - m_payload_offs p)
                             (m_payload_offs p) (m_payload_file p) of
              None \<Rightarrow> None
            | Some (offs, f) \<Rightarrow>
                Some ((OnFile f (p\<lparr> m_payload_offs := offs, m_payload_file := f \<rparr>))
                        \<lparr> m_payload_active := False \<rparr>))
      else Some p)"

definition Flush :: "TapeParser \<Rightarrow> TapeParser option" where
  "Flush p = (case FlushPayload p of None \<Rightarrow> None | Some p' \<Rightarrow> Some (Reset p'))"

text \<open>The payload branch of \<^verbatim>\<open>PutByte\<close> (\<^verbatim>\<open>if (m_payload_active) ...\<close>).\<close>

definition PutByte_payload :: "DecodedByte \<Rightarrow> TapeParser \<Rightarrow> TapeParser option" where
  "PutByte_payload b p =
     (if m_payload_active p
      then (if \<not> (0 \<le> m_payload_offs p \<and> m_payload_offs p < payload_capacity) then None
            else
              (let f = count_errors b
                         ((m_payload_file p)
                            \<lparr> payload := (payload (m_payload_file p))(m_payload_offs p := byte b) \<rparr>);
                   p' = p\<lparr> m_payload_offs := m_payload_offs p + 1, m_payload_file := f \<rparr>
               in if m_payload_offs p' = len (m_payload_file p')
                  then Some ((OnFile (m_payload_file p') p')\<lparr> m_payload_active := False \<rparr>)
                  else Some p'))
      else Some p)"

text \<open>The two run-length counters that \<^verbatim>\<open>PutByte\<close> updates for every byte.\<close>

definition PutByte_counters :: "DecodedByte \<Rightarrow> TapeParser \<Rightarrow> TapeParser" where
  "PutByte_counters b p =
     p\<lparr> m_consecutive_non_16 :=
          (if byte b \<noteq> 0x16 then m_consecutive_non_16 p + 1 else 0),
        m_consecutive_bad_bytes :=
          (if sync_error b \<or> parity_error b then m_consecutive_bad_bytes p + 1 else 0) \<rparr>"

text \<open>The branch \<^verbatim>\<open>m_section_type == ST_SYNC\<close>.\<close>

definition PutByte_sync :: "DecodedByte \<Rightarrow> TapeParser \<Rightarrow> TapeParser" where
  "PutByte_sync b p0 =
     (let p = (if m_section_offs p0 = 0
               then p0\<lparr> m_scout_file := (m_scout_file p0)\<lparr> start_time := time b \<rparr> \<rparr>
               else p0)
      in if byte b = 0x16
         then p\<lparr> m_section_offs := m_section_offs p + 1 \<rparr>
         else if byte b = 0x24 \<and> m_section_offs p \<ge> 3
         then p\<lparr> m_section_type := ST_HEADER,
                 m_section_offs := 0,
                 m_scout_file := (m_scout_file p)\<lparr> sync_errors := 0, parity_errors := 0 \<rparr> \<rparr>
         else if m_section_offs p \<ge> 3 \<and> \<not> m_payload_active p \<and>
                 (m_consecutive_non_16 p < 8 \<or> m_consecutive_bad_bytes p < 4)
         then p\<lparr> m_section_offs := m_section_offs p + 1 \<rparr>
         else p\<lparr> m_section_offs := 0 \<rparr>)"

text \<open>The branch \<^verbatim>\<open>m_section_type == ST_HEADER\<close>.\<close>

definition PutByte_header :: "DecodedByte \<Rightarrow> TapeParser \<Rightarrow> TapeParser option" where
  "PutByte_header b p0 =
     (if \<not> (0 \<le> m_section_offs p0 \<and> m_section_offs p0 < header_capacity) then None
      else
        (let f = count_errors b
                   ((m_scout_file p0)
                      \<lparr> header := (header (m_scout_file p0))(m_section_offs p0 := byte b) \<rparr>);
             p = p0\<lparr> m_section_offs := m_section_offs p0 + 1, m_scout_file := f \<rparr>
         in if m_section_offs p = header_capacity
            then (let filetype = header (m_scout_file p) 2
                  in if filetype = 0x00 \<or> filetype = 0x80
                     then Some (p\<lparr> m_section_type := ST_NAME, m_section_offs := 0 \<rparr>)
                     else Some (p\<lparr> m_section_type := ST_SYNC, m_section_offs := 0 \<rparr>))
            else Some p))"

text \<open>
  The addresses and the length that the name branch reads from the header:
  \<^verbatim>\<open>endaddr = (((uint16_t) header[4]) << 8) | header[5]\<close>, likewise the start address from
  bytes 6 and 7, and \<^verbatim>\<open>len = (endaddr-startaddr); len &= 0xffff; len += 1\<close> on C \<^verbatim>\<open>int\<close>s.
\<close>

definition header_endaddr :: "TapeFile \<Rightarrow> 16 word" where
  "header_endaddr f = push_bit 8 (ucast (header f 4) :: 16 word) OR ucast (header f 5)"

definition header_startaddr :: "TapeFile \<Rightarrow> 16 word" where
  "header_startaddr f = push_bit 8 (ucast (header f 6) :: 16 word) OR ucast (header f 7)"

definition header_len :: "TapeFile \<Rightarrow> int" where
  "header_len f =
     ((uint (header_endaddr f) - uint (header_startaddr f)) AND 0xffff) + 1"

text \<open>The last branch, for \<^verbatim>\<open>ST_NAME\<close>.\<close>

definition PutByte_name :: "DecodedByte \<Rightarrow> TapeParser \<Rightarrow> TapeParser option" where
  "PutByte_name b p0 =
     (if m_section_type p0 \<noteq> ST_NAME then None
      else if \<not> (0 \<le> m_section_offs p0 \<and> m_section_offs p0 < name_capacity) then None
      else
        (let f = count_errors b
                   ((m_scout_file p0)
                      \<lparr> name := (name (m_scout_file p0))(m_section_offs p0 := byte b) \<rparr>);
             p = p0\<lparr> m_section_offs := m_section_offs p0 + 1, m_scout_file := f \<rparr>
         in if byte b = 0
            then (let filetype = header (m_scout_file p) 2;
                      f' = (m_scout_file p)
                             \<lparr> start_addr := header_startaddr (m_scout_file p),
                               end_addr := header_endaddr (m_scout_file p),
                               len := header_len (m_scout_file p),
                               autorun := (header (m_scout_file p) 3 \<noteq> 0),
                               basic := (filetype = 0x00),
                               file_slow := slow b \<rparr>
                  in case FlushPayload (p\<lparr> m_scout_file := f' \<rparr>) of
                       None \<Rightarrow> None
                     | Some p' \<Rightarrow>
                         Some (p'\<lparr> m_payload_active := True,
                                   m_payload_offs := 0,
                                   m_payload_file := m_scout_file p',
                                   m_section_type := ST_SYNC,
                                   m_section_offs := 0 \<rparr>))
            else if m_section_offs p = name_capacity
            then Some (p\<lparr> m_section_type := ST_SYNC, m_section_offs := 0 \<rparr>)
            else Some p))"

text \<open>
  \<^verbatim>\<open>TapeParser::PutByte\<close>: the format check, the end times (1.5 nominal byte times past
  the byte, in real arithmetic here), the payload branch, the counters, the branch of
  the current section, and the time of the last byte.
\<close>

definition PutByte_format :: "DecodedByte \<Rightarrow> TapeParser \<Rightarrow> TapeParser option" where
  "PutByte_format b p =
     (if m_slow p \<noteq> slow b
      then (case (if \<not> IsIdle p then Flush p else Some p) of
              None \<Rightarrow> None
            | Some p' \<Rightarrow> Some (p'\<lparr> m_slow := slow b \<rparr>))
      else Some p)"

definition PutByte_end_time :: "DecodedByte \<Rightarrow> TapeParser \<Rightarrow> TapeParser" where
  "PutByte_end_time b p =
     (let t_byte = (if slow b then 209 / 4800 else 32 / 4800 :: real);
          p1 = p\<lparr> m_scout_file := (m_scout_file p)\<lparr> end_time := time b + 1.5 * t_byte \<rparr> \<rparr>
      in p1\<lparr> m_payload_file := (m_payload_file p1)\<lparr> end_time := end_time (m_scout_file p1) \<rparr> \<rparr>)"

definition PutByte_section :: "DecodedByte \<Rightarrow> TapeParser \<Rightarrow> TapeParser option" where
  "PutByte_section b p =
     (if m_section_type p = ST_SYNC then Some (PutByte_sync b p)
      else if m_section_type p = ST_HEADER then PutByte_header b p
      else PutByte_name b p)"

definition PutByte :: "DecodedByte \<Rightarrow> TapeParser \<Rightarrow> TapeParser option" where
  "PutByte b p =
     (case PutByte_format b p of
        None \<Rightarrow> None
      | Some p1 \<Rightarrow>
          (case PutByte_payload b (PutByte_end_time b p1) of
             None \<Rightarrow> None
           | Some p2 \<Rightarrow>
               (case PutByte_section b (PutByte_counters b p2) of
                  None \<Rightarrow> None
                | Some p3 \<Rightarrow> Some (p3\<lparr> m_last_time := time b \<rparr>))))"

text \<open>A parser fed a sequence of bytes, one \<^verbatim>\<open>PutByte\<close> call each.\<close>

fun PutBytes :: "DecodedByte list \<Rightarrow> TapeParser \<Rightarrow> TapeParser option" where
  "PutBytes [] p = Some p"
| "PutBytes (b # bs) p = (case PutByte b p of None \<Rightarrow> None | Some p' \<Rightarrow> PutBytes bs p')"

text \<open>
  A file padded from the payload offset \<open>offs\<close> to its length: every missing byte is
  \<open>0xcd\<close>, and both error counters grow by the number of missing bytes.
\<close>

definition padded_file :: "int \<Rightarrow> TapeFile \<Rightarrow> TapeFile" where
  "padded_file offs f =
     f\<lparr> payload := (\<lambda>i. if offs \<le> i \<and> i < len f then 0xcd else payload f i),
        sync_errors := sync_errors f + (len f - offs),
        parity_errors := parity_errors f + (len f - offs) \<rparr>"

text \<open>The name buffer of 17 bytes holds a zero byte.\<close>

definition name_terminated :: "TapeFile \<Rightarrow> bool" where
  "name_terminated f = (\<exists>i \<in> set [0..16]. name f i = 0)"

text \<open>
  What holds of the parser between two calls: the section is one of the three, its
  offset is inside the buffer of the section, a payload in progress is short of its
  length, which fits the payload buffer, and its name is terminated, as are the names
  of the files produced so far.
\<close>

definition parser_inv :: "TapeParser \<Rightarrow> bool" where
  "parser_inv p =
     ((m_section_type p = ST_SYNC \<or> m_section_type p = ST_HEADER \<or> m_section_type p = ST_NAME) \<and>
      0 \<le> m_section_offs p \<and>
      (m_section_type p = ST_HEADER \<longrightarrow> m_section_offs p < header_capacity) \<and>
      (m_section_type p = ST_NAME \<longrightarrow> m_section_offs p < name_capacity) \<and>
      (m_payload_active p \<longrightarrow>
         0 \<le> m_payload_offs p \<and> m_payload_offs p < len (m_payload_file p) \<and>
         len (m_payload_file p) \<le> payload_capacity \<and> name_terminated (m_payload_file p)) \<and>
      list_all name_terminated (on_file p))"

section \<open>The tape decoder: merging the back-ends\<close>

text \<open>
  A back-end behind the \<^verbatim>\<open>DecoderBackend\<close> interface is the list of the bytes it has yet
  to decode: \<^verbatim>\<open>DecodeByte\<close> hands out the next one, or returns false at the end of the
  tape and leaves the caller's buffer as it was. The result is the returned flag, the
  buffer and the back-end afterwards.
\<close>

definition DecodeByte :: "DecodedByte list \<Rightarrow> DecodedByte \<Rightarrow> bool \<times> DecodedByte \<times> DecodedByte list" where
  "DecodeByte bs buf = (case bs of [] \<Rightarrow> (False, buf, []) | x # xs \<Rightarrow> (True, x, xs))"

text \<open>
  \<^verbatim>\<open>class TapeDecoder\<close>; a back-end pointer is \<open>None\<close> when it is null. The parser is held
  by value. The options, the result file of \<^verbatim>\<open>ReadFile\<close> and the log are left out.
\<close>

record TapeDecoder =
  m_backend0 :: "DecodedByte list option"
  m_backend1 :: "DecodedByte list option"
  m_backend0_byte :: DecodedByte
  m_backend1_byte :: DecodedByte
  m_backend0_byte_ok :: bool
  m_backend1_byte_ok :: bool
  m_select_fast :: bool
  m_select_slow :: bool
  m_parser :: TapeParser

text \<open>
  \<^verbatim>\<open>TapeDecoder::Open\<close>, from the point where the back-ends have been constructed: the
  format selection from the options \<^verbatim>\<open>fast\<close> and \<^verbatim>\<open>slow\<close>, and the peek buffers.
\<close>

definition Open_peek0 :: "TapeDecoder \<Rightarrow> TapeDecoder" where
  "Open_peek0 d =
     (case m_backend0 d of
        None \<Rightarrow> d\<lparr> m_backend0_byte_ok := False \<rparr>
      | Some bs \<Rightarrow>
          (let (ok, buf, bs') = DecodeByte bs (m_backend0_byte d)
           in d\<lparr> m_backend0 := Some bs', m_backend0_byte := buf, m_backend0_byte_ok := ok \<rparr>))"

definition Open_peek1 :: "TapeDecoder \<Rightarrow> TapeDecoder" where
  "Open_peek1 d =
     (case m_backend1 d of
        None \<Rightarrow> d\<lparr> m_backend1_byte_ok := False \<rparr>
      | Some bs \<Rightarrow>
          (let (ok, buf, bs') = DecodeByte bs (m_backend1_byte d)
           in d\<lparr> m_backend1 := Some bs', m_backend1_byte := buf, m_backend1_byte_ok := ok \<rparr>))"

definition Open ::
  "bool \<Rightarrow> bool \<Rightarrow> DecodedByte list option \<Rightarrow> DecodedByte list option \<Rightarrow>
   TapeDecoder \<Rightarrow> TapeDecoder" where
  "Open opt_fast opt_slow backend0 backend1 d =
     Open_peek1 (Open_peek0
       (d\<lparr> m_select_fast := (opt_fast \<and> \<not> opt_slow),
           m_select_slow := (opt_slow \<and> \<not> opt_fast),
           m_backend0 := backend0,
           m_backend1 := backend1 \<rparr>))"

text \<open>
  The first half of the loop body of \<^verbatim>\<open>ReadByte\<close>: take the peeked byte with the earlier
  time and refill that peek buffer. \<open>None\<close> is the failed assertion, or the call through
  a null pointer.
\<close>

definition backend0_first :: "TapeDecoder \<Rightarrow> bool" where
  "backend0_first d =
     (m_backend0_byte_ok d \<and>
      (\<not> m_backend1_byte_ok d \<or> time (m_backend0_byte d) \<le> time (m_backend1_byte d)))"

definition ReadByte_pick :: "TapeDecoder \<Rightarrow> (DecodedByte \<times> TapeDecoder) option" where
  "ReadByte_pick d =
     (if backend0_first d
      then (case m_backend0 d of
              None \<Rightarrow> None
            | Some bs \<Rightarrow>
                (let (ok, buf, bs') = DecodeByte bs (m_backend0_byte d)
                 in Some (m_backend0_byte d,
                          d\<lparr> m_backend0 := Some bs', m_backend0_byte := buf,
                             m_backend0_byte_ok := ok \<rparr>)))
      else if \<not> m_backend1_byte_ok d then None
      else (case m_backend1 d of
              None \<Rightarrow> None
            | Some bs \<Rightarrow>
                (let (ok, buf, bs') = DecodeByte bs (m_backend1_byte d)
                 in Some (m_backend1_byte d,
                          d\<lparr> m_backend1 := Some bs', m_backend1_byte := buf,
                             m_backend1_byte_ok := ok \<rparr>))))"

text \<open>Detect sync, perform mode switch.\<close>

definition ReadByte_detect :: "DecodedByte \<Rightarrow> bool \<Rightarrow> TapeDecoder \<Rightarrow> TapeDecoder" where
  "ReadByte_detect b idle d =
     (if byte b = 0x16 \<and> \<not> sync_error b \<and> \<not> parity_error b \<and> idle
      then d\<lparr> m_select_fast := (\<not> slow b), m_select_slow := slow b \<rparr>
      else d)"

text \<open>
  One pass through the loop body of \<^verbatim>\<open>ReadByte\<close>: the byte taken, whether the pass ends
  in \<^verbatim>\<open>return true\<close>, and the decoder afterwards.
\<close>

definition ReadByte_body :: "TapeDecoder \<Rightarrow> (DecodedByte \<times> bool \<times> TapeDecoder) option" where
  "ReadByte_body d =
     (case ReadByte_pick d of
        None \<Rightarrow> None
      | Some (b, d1) \<Rightarrow>
          (let idle = IsIdle (m_parser d1);
               d2 = ReadByte_detect b idle d1;
               selected = (if slow b then m_select_slow d2 else m_select_fast d2)
           in if selected
              then (case PutByte b (m_parser d2) of
                      None \<Rightarrow> None
                    | Some p \<Rightarrow>
                        Some (b, (\<not> sync_error b \<and> \<not> parity_error b) \<or> \<not> idle,
                              d2\<lparr> m_parser := p \<rparr>))
              else Some (b, False, d2)))"

text \<open>The number of bytes the two back-ends still hold, peek buffers included.\<close>

definition pending :: "TapeDecoder \<Rightarrow> nat" where
  "pending d =
     (if m_backend0_byte_ok d then 1 + (case m_backend0 d of None \<Rightarrow> 0 | Some bs \<Rightarrow> length bs) else 0) +
     (if m_backend1_byte_ok d then 1 + (case m_backend1 d of None \<Rightarrow> 0 | Some bs \<Rightarrow> length bs) else 0)"

lemma DecodeByte_pending:
  "DecodeByte bs buf = (ok, buf', bs') \<Longrightarrow> (if ok then 1 + length bs' else 0) < 1 + length bs"
  by (cases bs) (auto simp add: DecodeByte_def)

lemma ReadByte_pick_pending:
  assumes "ReadByte_pick d = Some (b, d')"
  shows "pending d' < pending d"
proof (cases "backend0_first d")
  case True
  then obtain bs where bs: "m_backend0 d = Some bs"
    using assms by (cases "m_backend0 d") (simp_all add: ReadByte_pick_def)
  obtain ok buf' bs' where dec: "DecodeByte bs (m_backend0_byte d) = (ok, buf', bs')"
    by (cases "DecodeByte bs (m_backend0_byte d)") auto
  have d': "d' = d\<lparr> m_backend0 := Some bs', m_backend0_byte := buf', m_backend0_byte_ok := ok \<rparr>"
    using assms True bs dec by (simp add: ReadByte_pick_def)
  show ?thesis
    using DecodeByte_pending[OF dec] True bs by (simp add: d' pending_def backend0_first_def split: if_splits)
next
  case False
  then have ok1: "m_backend1_byte_ok d"
    using assms by (simp add: ReadByte_pick_def split: if_splits)
  then obtain bs where bs: "m_backend1 d = Some bs"
    using assms False by (cases "m_backend1 d") (simp_all add: ReadByte_pick_def)
  obtain ok buf' bs' where dec: "DecodeByte bs (m_backend1_byte d) = (ok, buf', bs')"
    by (cases "DecodeByte bs (m_backend1_byte d)") auto
  have d': "d' = d\<lparr> m_backend1 := Some bs', m_backend1_byte := buf', m_backend1_byte_ok := ok \<rparr>"
    using assms False ok1 bs dec by (simp add: ReadByte_pick_def)
  show ?thesis
    using DecodeByte_pending[OF dec] ok1 bs by (simp add: d' pending_def split: if_splits)
qed

lemma pending_detect: "pending (ReadByte_detect b idle d) = pending d"
  by (simp add: ReadByte_detect_def pending_def)

lemma pending_parser: "pending (d\<lparr> m_parser := p \<rparr>) = pending d"
  by (simp add: pending_def)

lemma ReadByte_body_pending:
  assumes "ReadByte_body d = Some (b, r, d')"
  shows "pending d' < pending d"
proof -
  obtain b1 d1 where pick: "ReadByte_pick d = Some (b1, d1)"
    using assms by (cases "ReadByte_pick d") (auto simp add: ReadByte_body_def)
  have "pending d' = pending d1"
    using assms pick
    by (auto simp add: ReadByte_body_def Let_def pending_detect pending_parser
             split: if_splits option.splits)
  then show ?thesis using ReadByte_pick_pending[OF pick] by simp
qed


text \<open>
  \<^verbatim>\<open>TapeDecoder::ReadByte\<close>, with the caller's buffer \<open>buf\<close>: the returned flag, the
  buffer and the decoder afterwards; \<open>None\<close> is a failed assertion. The loop ends because
  every pass takes one byte from a back-end.
\<close>

function ReadByte :: "TapeDecoder \<Rightarrow> DecodedByte \<Rightarrow> (bool \<times> DecodedByte \<times> TapeDecoder) option" where
  "ReadByte d buf =
     (if m_backend0_byte_ok d \<or> m_backend1_byte_ok d
      then (case ReadByte_body d of
              None \<Rightarrow> None
            | Some (b, returned, d') \<Rightarrow>
                if returned then Some (True, b, d') else ReadByte d' b)
      else Some (False, buf, d))"
  by pat_completeness auto
termination
  by (relation "measure (\<lambda>(d, buf). pending d)") (auto dest: ReadByte_body_pending)

declare ReadByte.simps [simp del]

text \<open>A freshly constructed decoder: no back-end attached, nothing peeked, parser reset.\<close>

definition new_TapeDecoder :: TapeDecoder where
  "new_TapeDecoder =
     \<lparr> m_backend0 = None, m_backend1 = None,
       m_backend0_byte = clean_byte 0 False 0, m_backend1_byte = clean_byte 0 False 0,
       m_backend0_byte_ok = False, m_backend1_byte_ok = False,
       m_select_fast = False, m_select_slow = False,
       m_parser = new_TapeParser \<rparr>"

text \<open>
  What a back-end will still deliver, in order: the peeked byte, if there is one, followed by
  the bytes its \<open>DecodeByte\<close> has not produced yet.
\<close>

definition backend_stream :: "bool \<Rightarrow> DecodedByte \<Rightarrow> DecodedByte list option \<Rightarrow> DecodedByte list" where
  "backend_stream ok peek backend =
     (if ok then peek # (case backend of None \<Rightarrow> [] | Some bs \<Rightarrow> bs) else [])"

text \<open>Each back-end on its own delivers non-decreasing times.\<close>

definition streams_sorted :: "TapeDecoder \<Rightarrow> bool" where
  "streams_sorted d =
     (sorted (map time (backend_stream (m_backend0_byte_ok d) (m_backend0_byte d) (m_backend0 d))) \<and>
      sorted (map time (backend_stream (m_backend1_byte_ok d) (m_backend1_byte d) (m_backend1 d))))"

text \<open>No byte still to come from either back-end is earlier than \<open>t\<close>.\<close>

definition not_before :: "real \<Rightarrow> TapeDecoder \<Rightarrow> bool" where
  "not_before t d =
     (list_all (\<lambda>b. t \<le> time b)
        (backend_stream (m_backend0_byte_ok d) (m_backend0_byte d) (m_backend0 d)) \<and>
      list_all (\<lambda>b. t \<le> time b)
        (backend_stream (m_backend1_byte_ok d) (m_backend1_byte d) (m_backend1 d)))"

text \<open>
  A peeked byte can only come from an attached back-end, and the parser satisfies its
  invariant. \<open>Open\<close> establishes this and \<open>ReadByte\<close> keeps it.
\<close>

definition decoder_ok :: "TapeDecoder \<Rightarrow> bool" where
  "decoder_ok d =
     ((m_backend0_byte_ok d \<longrightarrow> m_backend0 d \<noteq> None) \<and>
      (m_backend1_byte_ok d \<longrightarrow> m_backend1 d \<noteq> None) \<and>
      parser_inv (m_parser d))"

section \<open>Properties of the byte framing\<close>

lemma uint_and_one: "uint ((w::'a::len word) AND 1) = of_bool (bit w 0)"
proof -
  have "uint (w AND 1) = uint w AND 1" by (simp only: uint_and uint_1)
  also have "\<dots> = uint w mod 2" by (simp only: and_one_eq)
  also have "\<dots> = of_bool (odd (uint w))" by (simp add: mod2_eq_if)
  also have "odd (uint w) = bit (uint w) 0" by (simp add: bit_0)
  also have "\<dots> = bit w 0" by (simp add: bit_uint_iff)
  finally show ?thesis .
qed

lemma word255_mask: "(255::16 word) = mask 8"
  by (simp add: mask_eq_exp_minus_1)

lemma parity8_bits:
  "parity8 x =
     of_bool (bit x 0 \<noteq> (bit x 1 \<noteq> (bit x 2 \<noteq> (bit x 3 \<noteq>
             (bit x 4 \<noteq> (bit x 5 \<noteq> (bit x 6 \<noteq> bit x 7)))))))"
proof -
  have "bit (((x XOR drop_bit 4 x) XOR drop_bit 2 (x XOR drop_bit 4 x)) XOR
         drop_bit 1 ((x XOR drop_bit 4 x) XOR drop_bit 2 (x XOR drop_bit 4 x))) 0
      = (bit x 0 \<noteq> (bit x 1 \<noteq> (bit x 2 \<noteq> (bit x 3 \<noteq>
             (bit x 4 \<noteq> (bit x 5 \<noteq> (bit x 6 \<noteq> bit x 7)))))))"
    apply (simp add: bit_simps eval_nat_numeral)
    apply argo
    done
  then show ?thesis
    unfolding parity8_def Let_def uint_and_one by (rule arg_cong)
qed


lemma is_sync_ok_bits: "is_sync_ok z = (\<not> bit z 0 \<and> bit z 10 \<and> bit z 11)"
  unfolding is_sync_ok_def
  apply (simp add: bit_eq_iff bit_and_iff)
  apply (simp add: All_less_Suc eval_nat_numeral bit_Suc bit_0)
  apply blast
  done

lemma is_parity_ok_bits:
  "is_parity_ok z =
     (bit z 9 = (\<not> (bit z 1 \<noteq> (bit z 2 \<noteq> (bit z 3 \<noteq> (bit z 4 \<noteq>
                     (bit z 5 \<noteq> (bit z 6 \<noteq> (bit z 7 \<noteq> bit z 8)))))))))"
proof -
  have b: "\<And>n. bit (ucast (drop_bit 1 z AND 255) :: 8 word) n = (n < 8 \<and> bit z (Suc n))"
    by (auto simp add: word255_mask bit_simps)
  have p: "uint (drop_bit 9 z AND 1) = of_bool (bit z 9)"
    unfolding uint_and_one by (simp add: bit_simps)
  have t: "\<And>a c. ((of_bool a :: int) = (if (of_bool c :: int) = 0 then 1 else 0)) = (a = (\<not> c))"
    by (case_tac a; case_tac c) simp_all
  show ?thesis
    unfolding is_parity_ok_def Let_def parity8_bits b p t
    by (simp add: eval_nat_numeral)
qed

text \<open>
  Claim C1. For every framed value \<open>z\<close> (every 16-bit value, so every 13-bit one):
  \<open>is_sync_ok z\<close> holds exactly when \<open>z AND 0x0c01 = 0x0c00\<close>, that is when the start bit
  (bit 0) is 0 and the first two stop bits (bits 10 and 11) are 1; \<open>is_parity_ok z\<close> holds
  exactly when bit 9 equals the negation of the xor of the bits 1 to 8 (odd parity); and
  \<open>get_data_bits z\<close> is \<open>(z >> 1) & 0xFF\<close>, the bits 1 to 8 of \<open>z\<close>.
\<close>

theorem framed13_validity:
  "(is_sync_ok z \<longleftrightarrow> (z AND 0x0c01 = 0x0c00)) \<and>
   (is_sync_ok z \<longleftrightarrow> (\<not> bit z 0 \<and> bit z 10 \<and> bit z 11)) \<and>
   (is_parity_ok z \<longleftrightarrow>
      (bit z 9 = (\<not> (bit z 1 \<noteq> (bit z 2 \<noteq> (bit z 3 \<noteq> (bit z 4 \<noteq>
                     (bit z 5 \<noteq> (bit z 6 \<noteq> (bit z 7 \<noteq> bit z 8)))))))))) \<and>
   get_data_bits z = ucast (drop_bit 1 z AND 0xFF) \<and>
   uint (get_data_bits z) = (uint z div 2) mod 256"
proof -
  have "uint (get_data_bits z) = (uint z div 2) mod 256"
    unfolding get_data_bits_def word255_mask
    by (simp add: unsigned_ucast_eq unsigned_and_eq unsigned_drop_bit_eq
          take_bit_eq_mod drop_bit_eq_div uint_div uint_mod flip: take_bit_eq_mask)
  then show ?thesis
    using is_sync_ok_bits [of z] is_parity_ok_bits [of z]
    by (simp add: is_sync_ok_def get_data_bits_def)
qed

subsection \<open>The encoder's frame passes the decoders' checks\<close>





section \<open>The slow format: which frequency is which bit\<close>

lemma upto_0_15: "[0..15] = 0 # 1 # 2 # 3 # 4 # 5 # 6 # 7 # 8 # 9 # 10 # 11 # 12 # 13 # 14 # [15 :: int]"
  by (simp add: upto.simps)

lemma m_levels_EmitBit: "m_levels (EmitBit v e) = m_levels e @ [v]"
  by (simp add: EmitBit_def)

lemma m_last_bit_EmitBit: "m_last_bit (EmitBit v e) = v"
  by (simp add: EmitBit_def)

lemma m_enc_slow_EmitBit: "m_enc_slow (EmitBit v e) = m_enc_slow e"
  by (simp add: EmitBit_def RampTo_def Let_def split: prod.splits)

lemma EncodeBit_slow_one:
  "m_enc_slow e \<Longrightarrow>
   m_levels (EncodeBit True e) =
     m_levels e @ concat (replicate 8 [\<not> m_last_bit e, m_last_bit e])"
  by (simp add: EncodeBit_def Let_def upto_0_15 m_levels_EmitBit eval_nat_numeral)

lemma EncodeBit_slow_zero:
  "m_enc_slow e \<Longrightarrow>
   m_levels (EncodeBit False e) =
     m_levels e @ concat (replicate 4 [\<not> m_last_bit e, \<not> m_last_bit e, m_last_bit e, m_last_bit e])"
  by (simp add: EncodeBit_def Let_def upto_0_15 m_levels_EmitBit eval_nat_numeral)

lemma EncodeBit_slow_last_bit:
  "m_enc_slow e \<Longrightarrow> m_last_bit (EncodeBit v e) = m_last_bit e"
  by (simp add: EncodeBit_def Let_def upto_0_15 m_last_bit_EmitBit)

lemma half_cycles_one: "half_cycles p 0 (concat (replicate 8 [\<not> p, p])) = replicate 16 1"
  by (simp add: eval_nat_numeral)

lemma half_cycles_zero: "half_cycles p 0 (concat (replicate 4 [\<not> p, \<not> p, p, p])) = replicate 8 2"
  by (simp add: eval_nat_numeral)


lemma RampTo_loop_spec:
  "RampTo_loop phase n = (phase', n') \<Longrightarrow>
   phase' - phase = RAMP_STEP * (n' - n) \<and>
   (phase < RAMP_LEN \<longrightarrow> RAMP_LEN \<le> phase' \<and> phase' < RAMP_LEN + RAMP_STEP) \<and>
   (RAMP_LEN \<le> phase \<longrightarrow> phase' = phase)"
proof (induction phase n rule: RampTo_loop.induct)
  case (1 phase n)
  show ?case
  proof (cases "phase < RAMP_LEN")
    case True
    then have "RampTo_loop (phase + RAMP_STEP) (n + 1) = (phase', n')"
      using "1.prems" by (simp add: RampTo_loop.simps [of phase n])
    from "1.IH" [OF True this] True show ?thesis by auto
  next
    case False
    then show ?thesis using "1.prems" by (simp add: RampTo_loop.simps [of phase n])
  qed
qed

lemma EmitBit_sample_clock:
  assumes "0 \<le> m_ramp_phase e" "m_ramp_phase e < RAMP_STEP"
    and "RAMP_STEP * m_samples e = RAMP_LEN * int (length (m_levels e)) + m_ramp_phase e"
  shows "0 \<le> m_ramp_phase (EmitBit v e) \<and> m_ramp_phase (EmitBit v e) < RAMP_STEP \<and>
         RAMP_STEP * m_samples (EmitBit v e) =
           RAMP_LEN * int (length (m_levels (EmitBit v e))) + m_ramp_phase (EmitBit v e)"
proof -
  obtain phase' n' where l: "RampTo_loop (m_ramp_phase e) (m_samples e) = (phase', n')"
    by (cases "RampTo_loop (m_ramp_phase e) (m_samples e)") auto
  from RampTo_loop_spec [OF l] assms show ?thesis
    by (simp add: EmitBit_def RampTo_def l)
qed

text \<open>
  Claim C8 states that in the slow format a bit is 16 half-cycles of about 1200 Hz for a
  one and about 2400 Hz for a zero, and that the demodulator's low band is the carrier
  of the one bit. The encoder does the opposite: for a one bit the level changes at
  every one of the sixteen steps (sixteen half-cycles of one step, 2400 Hz), for
  a zero bit at every second step (eight half-cycles of two steps, 1200 Hz).
\<close>

theorem slow_bit_frequency_counterexample:
  "map half_cycle_hz (half_cycles False 0 (m_levels (EncodeBit True (opened_encoder True))))
     = replicate 16 2400 \<and>
   map half_cycle_hz (half_cycles False 0 (m_levels (EncodeBit True (opened_encoder True))))
     \<noteq> replicate 16 1200 \<and>
   map half_cycle_hz (half_cycles False 0 (m_levels (EncodeBit False (opened_encoder True))))
     = replicate 8 1200"
proof -
  have s: "m_enc_slow (opened_encoder True)" by (simp add: opened_encoder_def)
  have l: "m_last_bit (opened_encoder True) = False" "m_levels (opened_encoder True) = []"
    by (simp_all add: opened_encoder_def)
  have h: "half_cycle_hz 1 = 2400" "half_cycle_hz 2 = 1200"
    by (simp_all add: half_cycle_hz_def)
  show ?thesis
    unfolding EncodeBit_slow_one [OF s] EncodeBit_slow_zero [OF s] l append_Nil
      half_cycles_one half_cycles_zero
    using h by (simp add: eval_nat_numeral)
qed

text \<open>
  Claim C8, amended. In the slow format \<^verbatim>\<open>EncodeBit\<close> emits sixteen levels at the 4800 Hz
  switching rate, starting opposite to the last level and ending on it: for a one bit
  they are sixteen half-cycles of a 2400 Hz square wave, for a zero bit eight half-cycles
  of a 1200 Hz square wave. In the demodulator the high band has the 2400 Hz carrier
  and its balanced output is positive (a one, as the decoder reads it) exactly when the
  demodulated magnitude is above the threshold; the low band has the 1200 Hz carrier
  and its output is positive exactly when the magnitude is below the threshold: the
  2400 Hz band carries the one bit and the 1200 Hz band the zero bit.
\<close>

theorem slow_bit_frequencies:
  assumes "m_enc_slow e"
  shows "(\<exists>ls. m_levels (EncodeBit v e) = m_levels e @ ls \<and> length ls = 16 \<and>
              half_cycles (m_last_bit e) 0 ls = (if v then replicate 16 1 else replicate 8 2) \<and>
              map half_cycle_hz (half_cycles (m_last_bit e) 0 ls) =
                (if v then replicate 16 2400 else replicate 8 1200)) \<and>
         m_last_bit (EncodeBit v e) = m_last_bit e \<and>
         carrier_hz 4800 True = 2400 \<and> carrier_hz 4800 False = 1200 \<and>
         (0 < Demodulator_balance True demod threshold \<longleftrightarrow> threshold < demod) \<and>
         (0 < Demodulator_balance False demod threshold \<longleftrightarrow> demod < threshold)"
proof -
  have h: "half_cycle_hz 1 = 2400" "half_cycle_hz 2 = 1200"
    by (simp_all add: half_cycle_hz_def)
  have levels: "\<exists>ls. m_levels (EncodeBit v e) = m_levels e @ ls \<and> length ls = 16 \<and>
              half_cycles (m_last_bit e) 0 ls = (if v then replicate 16 1 else replicate 8 2) \<and>
              map half_cycle_hz (half_cycles (m_last_bit e) 0 ls) =
                (if v then replicate 16 2400 else replicate 8 1200)"
  proof (cases v)
    case True
    show ?thesis
      apply (rule exI [of _ "concat (replicate 8 [\<not> m_last_bit e, m_last_bit e])"])
      unfolding half_cycles_one
      using True h EncodeBit_slow_one [OF assms] by (simp add: eval_nat_numeral)
  next
    case False
    show ?thesis
      apply (rule exI [of _ "concat (replicate 4 [\<not> m_last_bit e, \<not> m_last_bit e,
                                                  m_last_bit e, m_last_bit e])"])
      unfolding half_cycles_zero
      using False h EncodeBit_slow_zero [OF assms] by (simp add: eval_nat_numeral)
  qed
  have last: "m_last_bit (EncodeBit v e) = m_last_bit e"
    by (rule EncodeBit_slow_last_bit [OF assms])
  have carrier: "carrier_hz 4800 True = 2400" "carrier_hz 4800 False = 1200"
    by (simp_all add: carrier_hz_def)
  have balance: "0 < Demodulator_balance True demod threshold \<longleftrightarrow> threshold < demod"
    "0 < Demodulator_balance False demod threshold \<longleftrightarrow> demod < threshold"
    by (simp_all add: Demodulator_balance_def)
  from levels last carrier balance show ?thesis by blast
qed

theorem slow_bit_frequencies_witness:
  "m_enc_slow (opened_encoder True) \<and>
   (\<exists>ls. m_levels (EncodeBit True (opened_encoder True)) = m_levels (opened_encoder True) @ ls \<and>
         length ls = 16 \<and>
         half_cycles (m_last_bit (opened_encoder True)) 0 ls = replicate 16 1 \<and>
         map half_cycle_hz (half_cycles (m_last_bit (opened_encoder True)) 0 ls) = replicate 16 2400) \<and>
   (0 < Demodulator_balance True 3 1 \<longleftrightarrow> (1::real) < 3)"
proof -
  have s: "m_enc_slow (opened_encoder True)" by (simp add: opened_encoder_def)
  show ?thesis using s slow_bit_frequencies [OF s, of True 3 1] by simp
qed

section \<open>The error flags of a decoded byte\<close>










section \<open>Properties of the tape parser\<close>

subsection \<open>The length of a file\<close>

lemma int_and_ffff: "(x::int) AND 0xffff = x mod 65536"
proof -
  have m: "(0xffff::int) = mask 16" by (simp add: mask_eq_exp_minus_1)
  have "x AND mask 16 = x mod 2 ^ 16"
    by (simp only: take_bit_eq_mod flip: take_bit_eq_mask)
  then show ?thesis unfolding m by simp
qed

lemma uint_hi_lo:
  "uint (push_bit 8 (ucast (hi :: 8 word) :: 16 word) OR ucast (lo :: 8 word)) = 256 * uint hi + uint lo"
proof -
  have hb: "0 \<le> uint hi" "uint hi < 256" "0 \<le> uint lo" "uint lo < 256"
    using uint_lt2p [of hi] uint_lt2p [of lo] by simp_all
  have t1: "take_bit 16 (uint hi) = uint hi" "take_bit 16 (uint lo) = uint lo"
    "take_bit 8 (uint lo) = uint lo"
    using hb by (simp_all add: take_bit_int_eq_self)
  have t2: "take_bit 16 (push_bit 8 (uint hi)) = push_bit 8 (uint hi)"
    using hb by (simp add: take_bit_int_eq_self push_bit_eq_mult)
  have "uint (push_bit 8 (ucast hi :: 16 word) OR ucast lo)
          = push_bit 8 (uint hi) OR uint lo"
    by (simp add: unsigned_or_eq unsigned_push_bit_eq unsigned_ucast_eq t1 t2)
  also have "\<dots> = take_bit 8 (uint lo) OR push_bit 8 (uint hi)"
    by (simp add: t1 or.commute)
  also have "\<dots> = concat_bit 8 (uint lo) (uint hi)"
    by (simp only: concat_bit_def)
  also have "\<dots> = take_bit 8 (uint lo) + push_bit 8 (uint hi)"
    by (rule concat_bit_eq)
  also have "\<dots> = 256 * uint hi + uint lo"
    by (simp add: t1 push_bit_eq_mult)
  finally show ?thesis .
qed


lemma PutByte_end_time_frame:
  "m_section_type (PutByte_end_time b p) = m_section_type p"
  "m_section_offs (PutByte_end_time b p) = m_section_offs p"
  "m_slow (PutByte_end_time b p) = m_slow p"
  "m_consecutive_non_16 (PutByte_end_time b p) = m_consecutive_non_16 p"
  "m_consecutive_bad_bytes (PutByte_end_time b p) = m_consecutive_bad_bytes p"
  "m_payload_active (PutByte_end_time b p) = m_payload_active p"
  "m_payload_offs (PutByte_end_time b p) = m_payload_offs p"
  "on_file (PutByte_end_time b p) = on_file p"
  "m_scout_file (PutByte_end_time b p) =
     (m_scout_file p)\<lparr> end_time := time b + 1.5 * (if slow b then 209 / 4800 else 32 / 4800) \<rparr>"
  "m_payload_file (PutByte_end_time b p) =
     (m_payload_file p)\<lparr> end_time := time b + 1.5 * (if slow b then 209 / 4800 else 32 / 4800) \<rparr>"
  by (simp_all add: PutByte_end_time_def Let_def)

lemma PutByte_counters_frame:
  "m_section_type (PutByte_counters b p) = m_section_type p"
  "m_section_offs (PutByte_counters b p) = m_section_offs p"
  "m_slow (PutByte_counters b p) = m_slow p"
  "m_payload_active (PutByte_counters b p) = m_payload_active p"
  "m_payload_offs (PutByte_counters b p) = m_payload_offs p"
  "on_file (PutByte_counters b p) = on_file p"
  "m_scout_file (PutByte_counters b p) = m_scout_file p"
  "m_payload_file (PutByte_counters b p) = m_payload_file p"
  by (simp_all add: PutByte_counters_def)

lemma PutByte_payload_frame:
  assumes "PutByte_payload b p = Some p'"
  shows "m_section_type p' = m_section_type p \<and> m_section_offs p' = m_section_offs p \<and>
         m_slow p' = m_slow p \<and> m_scout_file p' = m_scout_file p \<and>
         m_consecutive_non_16 p' = m_consecutive_non_16 p \<and>
         m_consecutive_bad_bytes p' = m_consecutive_bad_bytes p"
  using assms
  by (auto simp add: PutByte_payload_def Let_def OnFile_def split: if_splits)

lemma header_count_errors: "header (count_errors b f) = header f"
  by (simp add: count_errors_def)

lemma header_len_mod:
  "header_len f =
     (256 * uint (header f 4) + uint (header f 5) - (256 * uint (header f 6) + uint (header f 7)))
       mod 65536 + 1"
  by (simp add: header_len_def header_endaddr_def header_startaddr_def uint_hi_lo int_and_ffff)

lemma PutByte_name_complete:
  assumes "PutByte_name b p = Some p'" and "byte b = 0"
  shows "m_payload_file p' =
           (count_errors b ((m_scout_file p)\<lparr> name := (name (m_scout_file p))(m_section_offs p := 0) \<rparr>))
             \<lparr> start_addr := header_startaddr (m_scout_file p),
               end_addr := header_endaddr (m_scout_file p),
               len := header_len (m_scout_file p),
               autorun := (header (m_scout_file p) 3 \<noteq> 0),
               basic := (header (m_scout_file p) 2 = 0),
               file_slow := slow b \<rparr> \<and>
         m_payload_active p' \<and> m_payload_offs p' = 0 \<and>
         m_section_type p' = ST_SYNC \<and> m_section_offs p' = 0"
proof -
  from assms have ok: "m_section_type p = ST_NAME" "0 \<le> m_section_offs p" "m_section_offs p < 17"
    by (auto simp add: PutByte_name_def split: if_splits)
  let ?f = "count_errors b ((m_scout_file p)\<lparr> name := (name (m_scout_file p))(m_section_offs p := 0) \<rparr>)"
  let ?f' = "?f\<lparr> start_addr := header_startaddr ?f, end_addr := header_endaddr ?f,
                 len := header_len ?f, autorun := (header ?f 3 \<noteq> 0),
                 basic := (header ?f 2 = 0), file_slow := slow b \<rparr>"
  have h: "header ?f = header (m_scout_file p)" by (simp add: count_errors_def)
  have hs: "header_startaddr ?f = header_startaddr (m_scout_file p)"
    "header_endaddr ?f = header_endaddr (m_scout_file p)"
    "header_len ?f = header_len (m_scout_file p)"
    by (simp_all add: header_startaddr_def header_endaddr_def header_len_def h)
  obtain q where q: "FlushPayload (p\<lparr> m_section_offs := m_section_offs p + 1, m_scout_file := ?f' \<rparr>) = Some q"
    and p': "p' = q\<lparr> m_payload_active := True, m_payload_offs := 0,
                     m_payload_file := m_scout_file q, m_section_type := ST_SYNC,
                     m_section_offs := 0 \<rparr>"
    using assms ok by (auto simp add: PutByte_name_def Let_def split: option.splits)
  have "m_scout_file q = ?f'"
    using q by (auto simp add: FlushPayload_def OnFile_def split: if_splits option.splits)
  then show ?thesis using p' by (simp add: h hs)
qed


lemmas parser_eval =
  PutByte_def PutByte_format_def PutByte_end_time_def PutByte_payload_def PutByte_counters_def
  PutByte_section_def PutByte_sync_def PutByte_header_def PutByte_name_def
  FlushPayload_def Flush_def Reset_def IsIdle_def OnFile_def count_errors_def
  new_TapeParser_def clean_byte_def Let_def

lemma PutByte_same_format:
  assumes "PutByte b p = Some p'" and "m_slow p = slow b"
  shows "\<exists>p2 p3. PutByte_payload b (PutByte_end_time b p) = Some p2 \<and>
                 PutByte_section b (PutByte_counters b p2) = Some p3 \<and>
                 p' = p3\<lparr> m_last_time := time b \<rparr>"
  using assms by (auto simp add: PutByte_def PutByte_format_def split: option.splits)

lemma len_bounds_mod: "1 \<le> (x::int) mod 65536 + 1 \<and> x mod 65536 + 1 \<le> 65536"
  using pos_mod_bound [of 65536 x] pos_mod_sign [of 65536 x] by simp

lemma uint_pred_diff:
  "(uint ((s::16 word) - 1) - uint s) mod 65536 = 65535"
proof -
  have "uint (s - 1) = (uint s - 1) mod 65536"
    by (simp add: uint_word_ariths)
  then have "(uint (s - 1) - uint s) mod 65536 = ((uint s - 1) mod 65536 - uint s) mod 65536"
    by simp
  also have "\<dots> = (uint s - 1 - uint s) mod 65536"
    by (rule mod_diff_left_eq)
  finally show ?thesis by simp
qed

text \<open>
  Claim C4. When a \<^verbatim>\<open>PutByte\<close> call completes a file name (the parser is in the name
  section, the byte has the parser's format and is zero), the new payload file has the
  end address \<open>256 * header[4] + header[5]\<close>, the start address
  \<open>256 * header[6] + header[7]\<close> and the length
  \<open>((end_addr - start_addr) mod 65536) + 1\<close>: the length lies in 1..65536, it is 1 when
  the two addresses are equal, and 65536 when the end address is the start address minus
  one modulo 65536.
\<close>

theorem name_complete_length:
  assumes "PutByte b p = Some p'" and "m_section_type p = ST_NAME" and "m_slow p = slow b"
    and "byte b = 0"
  shows "uint (end_addr (m_payload_file p')) =
           256 * uint (header (m_scout_file p) 4) + uint (header (m_scout_file p) 5) \<and>
         uint (start_addr (m_payload_file p')) =
           256 * uint (header (m_scout_file p) 6) + uint (header (m_scout_file p) 7) \<and>
         len (m_payload_file p') =
           (uint (end_addr (m_payload_file p')) - uint (start_addr (m_payload_file p'))) mod 65536 + 1 \<and>
         1 \<le> len (m_payload_file p') \<and> len (m_payload_file p') \<le> 65536 \<and>
         (start_addr (m_payload_file p') = end_addr (m_payload_file p') \<longrightarrow>
            len (m_payload_file p') = 1) \<and>
         (end_addr (m_payload_file p') = start_addr (m_payload_file p') - 1 \<longrightarrow>
            len (m_payload_file p') = 65536) \<and>
         m_payload_active p' \<and> m_payload_offs p' = 0"
proof -
  from PutByte_same_format [OF assms(1,3)] obtain p2 p3 where
    p2: "PutByte_payload b (PutByte_end_time b p) = Some p2" and
    p3: "PutByte_section b (PutByte_counters b p2) = Some p3" and
    p': "p' = p3\<lparr> m_last_time := time b \<rparr>"
    by blast
  let ?q = "PutByte_counters b p2"
  have ty: "m_section_type ?q = ST_NAME"
    using PutByte_payload_frame [OF p2] assms(2)
    by (simp add: PutByte_counters_frame PutByte_end_time_frame)
  have hd: "header (m_scout_file ?q) = header (m_scout_file p)"
    using PutByte_payload_frame [OF p2]
    by (simp add: PutByte_counters_frame PutByte_end_time_frame)
  from p3 ty have n: "PutByte_name b ?q = Some p3"
    by (simp add: PutByte_section_def)
  note c = PutByte_name_complete [OF n assms(4)]
  let ?e = "header_endaddr (m_scout_file p)" and ?s = "header_startaddr (m_scout_file p)"
  have same: "header_endaddr (m_scout_file ?q) = ?e" "header_startaddr (m_scout_file ?q) = ?s"
    "header_len (m_scout_file ?q) = header_len (m_scout_file p)"
    by (simp_all add: header_endaddr_def header_startaddr_def header_len_def hd)
  have f: "end_addr (m_payload_file p') = ?e" "start_addr (m_payload_file p') = ?s"
    "len (m_payload_file p') = header_len (m_scout_file p)"
    "m_payload_active p'" "m_payload_offs p' = 0"
    using c by (simp_all add: p' same)
  have l: "header_len (m_scout_file p) = (uint ?e - uint ?s) mod 65536 + 1"
    by (simp add: header_len_def int_and_ffff)
  have eq: "?s = ?e \<longrightarrow> header_len (m_scout_file p) = 1"
    by (simp add: l)
  have pred: "?e = ?s - 1 \<longrightarrow> header_len (m_scout_file p) = 65536"
    by (simp add: l uint_pred_diff)
  have ue: "uint ?e = 256 * uint (header (m_scout_file p) 4) + uint (header (m_scout_file p) 5)"
    and us: "uint ?s = 256 * uint (header (m_scout_file p) 6) + uint (header (m_scout_file p) 7)"
    by (simp_all add: header_endaddr_def header_startaddr_def uint_hi_lo)
  show ?thesis
    using f l eq pred ue us len_bounds_mod [of "uint ?e - uint ?s"]
    by simp
qed


theorem name_complete_length_witness:
  "\<exists>p p'. PutBytes (map (clean_byte 0 False)
                [0x16, 0x16, 0x16, 0x24, 0, 0, 0, 0, 0x05, 0x0a, 0x05, 0x01, 0, 0x41])
              new_TapeParser = Some p \<and>
          PutByte (clean_byte 0 False 0) p = Some p' \<and>
          m_section_type p = ST_NAME \<and> m_slow p = slow (clean_byte 0 False 0) \<and>
          byte (clean_byte 0 False 0) = 0 \<and>
          uint (end_addr (m_payload_file p')) = 0x50a \<and>
          uint (start_addr (m_payload_file p')) = 0x501 \<and>
          len (m_payload_file p') = 10"
proof -
  have "\<exists>p p'. PutBytes (map (clean_byte 0 False)
                [0x16, 0x16, 0x16, 0x24, 0, 0, 0, 0, 0x05, 0x0a, 0x05, 0x01, 0, 0x41])
              new_TapeParser = Some p \<and>
          PutByte (clean_byte 0 False 0) p = Some p' \<and>
          m_section_type p = ST_NAME \<and> m_slow p = slow (clean_byte 0 False 0) \<and>
          byte (clean_byte 0 False 0) = 0 \<and>
          header (m_scout_file p) 4 = 0x05 \<and> header (m_scout_file p) 5 = 0x0a \<and>
          header (m_scout_file p) 6 = 0x05 \<and> header (m_scout_file p) 7 = 0x01"
    by (simp add: parser_eval)
  then obtain p p' where
    run: "PutBytes (map (clean_byte 0 False)
                [0x16, 0x16, 0x16, 0x24, 0, 0, 0, 0, 0x05, 0x0a, 0x05, 0x01, 0, 0x41])
              new_TapeParser = Some p" and
    put: "PutByte (clean_byte 0 False 0) p = Some p'" and
    ty: "m_section_type p = ST_NAME" and sl: "m_slow p = slow (clean_byte 0 False 0)" and
    z: "byte (clean_byte 0 False 0) = 0" and
    h: "header (m_scout_file p) 4 = 0x05" "header (m_scout_file p) 5 = 0x0a"
       "header (m_scout_file p) 6 = 0x05" "header (m_scout_file p) 7 = 0x01"
    by blast
  from name_complete_length [OF put ty sl z] h
  have "uint (end_addr (m_payload_file p')) = 0x50a \<and>
        uint (start_addr (m_payload_file p')) = 0x501 \<and> len (m_payload_file p') = 10"
    by simp
  with run put ty sl z show ?thesis by blast
qed

subsection \<open>Sync tolerance\<close>

text \<open>
  While the parser looks for a sync and no payload is active it is idle: a byte of either
  format goes through \<^verbatim>\<open>PutByte\<close> without a flush, the payload branch does nothing, and
  the sync branch decides. The two run-length counters are updated before the section
  branch reads them, so the counts that the tolerance test sees include the byte at hand.
\<close>

lemma m_slow_same: "m_slow p = s \<Longrightarrow> p\<lparr> m_slow := s \<rparr> = p"
  by auto

lemma PutByte_idle:
  assumes "m_section_type p = ST_SYNC" and "\<not> m_payload_active p"
  shows "PutByte b p =
           Some ((PutByte_sync b (PutByte_counters b (PutByte_end_time b (p\<lparr> m_slow := slow b \<rparr>))))
                   \<lparr> m_last_time := time b \<rparr>)"
  using assms
  by (simp add: PutByte_def PutByte_format_def IsIdle_def PutByte_payload_def
        PutByte_end_time_frame PutByte_counters_frame PutByte_section_def m_slow_same)

lemma PutByte_idle_fields:
  assumes "m_section_type p = ST_SYNC" and "\<not> m_payload_active p"
  shows "\<exists>p'. PutByte b p = Some p' \<and> \<not> m_payload_active p' \<and> m_slow p' = slow b \<and>
           m_consecutive_non_16 p' = (if byte b \<noteq> 0x16 then m_consecutive_non_16 p + 1 else 0) \<and>
           m_consecutive_bad_bytes p' =
             (if sync_error b \<or> parity_error b then m_consecutive_bad_bytes p + 1 else 0) \<and>
           m_section_type p' = (if byte b = 0x24 \<and> 3 \<le> m_section_offs p then ST_HEADER else ST_SYNC) \<and>
           m_section_offs p' =
             (if byte b = 0x16 then m_section_offs p + 1
              else if byte b = 0x24 \<and> 3 \<le> m_section_offs p then 0
              else if 3 \<le> m_section_offs p \<and>
                      (m_consecutive_non_16 p + 1 < 8 \<or>
                       (if sync_error b \<or> parity_error b then m_consecutive_bad_bytes p + 1 else 0) < 4)
              then m_section_offs p + 1 else 0)"
  unfolding PutByte_idle [OF assms]
  using assms
  by (simp add: PutByte_sync_def PutByte_counters_def PutByte_end_time_def Let_def)


lemma PutByte_header_first:
  assumes "m_section_type p = ST_HEADER" and "m_section_offs p = 0" and "\<not> m_payload_active p"
    and "m_slow p = slow b"
  shows "\<exists>p'. PutByte b p = Some p' \<and> m_section_type p' = ST_HEADER \<and> m_section_offs p' = 1"
  using assms
  by (simp add: PutByte_def PutByte_format_def PutByte_payload_def PutByte_end_time_frame
        PutByte_counters_frame PutByte_section_def PutByte_header_def Let_def)

lemma sync_tolerated_exactly:
  assumes "m_section_type p = ST_SYNC" and "\<not> m_payload_active p" and "3 \<le> m_section_offs p"
    and "byte b \<noteq> 0x16" and "byte b \<noteq> 0x24"
  shows "\<exists>p'. PutByte b p = Some p' \<and> m_section_type p' = ST_SYNC \<and>
           m_section_offs p' =
             (if m_consecutive_non_16 p' < 8 \<or> m_consecutive_bad_bytes p' < 4
              then m_section_offs p + 1 else 0)"
  using PutByte_idle_fields [OF assms(1,2), of b] assms(3-5) by auto

lemma sync_sequence:
  assumes "m_section_type p = ST_SYNC" and "\<not> m_payload_active p" and "0 \<le> m_section_offs p"
  shows "\<exists>p'. PutBytes [clean_byte t1 s 0x16, clean_byte t2 s 0x16, clean_byte t3 s 0x16,
                         clean_byte t4 s X, clean_byte t5 s 0x24] p = Some p' \<and>
              m_section_type p' = ST_HEADER \<and>
              m_section_offs p' = (if X = 0x24 then 1 else 0)"
proof -
  from PutByte_idle_fields [OF assms(1,2), of "clean_byte t1 s 0x16"] assms(3)
  obtain p1 where p1: "PutByte (clean_byte t1 s 0x16) p = Some p1"
    "m_section_type p1 = ST_SYNC" "\<not> m_payload_active p1" "1 \<le> m_section_offs p1"
    by (auto simp add: clean_byte_def)
  from PutByte_idle_fields [OF p1(2,3), of "clean_byte t2 s 0x16"] p1(4)
  obtain p2 where p2: "PutByte (clean_byte t2 s 0x16) p1 = Some p2"
    "m_section_type p2 = ST_SYNC" "\<not> m_payload_active p2" "2 \<le> m_section_offs p2"
    by (auto simp add: clean_byte_def)
  from PutByte_idle_fields [OF p2(2,3), of "clean_byte t3 s 0x16"] p2(4)
  obtain p3 where p3: "PutByte (clean_byte t3 s 0x16) p2 = Some p3"
    "m_section_type p3 = ST_SYNC" "\<not> m_payload_active p3" "3 \<le> m_section_offs p3"
    "m_consecutive_non_16 p3 = 0" "m_consecutive_bad_bytes p3 = 0" "m_slow p3 = s"
    by (auto simp add: clean_byte_def)
  from PutByte_idle_fields [OF p3(2,3), of "clean_byte t4 s X"] p3(4-7)
  obtain p4 where p4: "PutByte (clean_byte t4 s X) p3 = Some p4"
    "\<not> m_payload_active p4" "m_slow p4 = s"
    "m_section_type p4 = (if X = 0x24 then ST_HEADER else ST_SYNC)"
    "X = 0x24 \<longrightarrow> m_section_offs p4 = 0" "X \<noteq> 0x24 \<longrightarrow> 3 \<le> m_section_offs p4"
    by (auto simp add: clean_byte_def)
  have "\<exists>p5. PutByte (clean_byte t5 s 0x24) p4 = Some p5 \<and> m_section_type p5 = ST_HEADER \<and>
              m_section_offs p5 = (if X = 0x24 then 1 else 0)"
  proof (cases "X = 0x24")
    case True
    with p4 have "m_section_type p4 = ST_HEADER" "m_section_offs p4 = 0"
      "m_slow p4 = slow (clean_byte t5 s 0x24)"
      by (simp_all add: clean_byte_def)
    from PutByte_header_first [OF this(1,2) p4(2) this(3)] True show ?thesis by simp
  next
    case False
    with p4 have "m_section_type p4 = ST_SYNC" "3 \<le> m_section_offs p4" by simp_all
    with PutByte_idle_fields [OF this(1) p4(2), of "clean_byte t5 s 0x24"] False
    show ?thesis by (auto simp add: clean_byte_def)
  qed
  then obtain p5 where "PutByte (clean_byte t5 s 0x24) p4 = Some p5"
    "m_section_type p5 = ST_HEADER" "m_section_offs p5 = (if X = 0x24 then 1 else 0)"
    by blast
  with p1(1) p2(1) p3(1) p4(1) show ?thesis by simp
qed

text \<open>
  Claim C5. In the sync section with at least three sync bytes counted and no payload
  active, a byte that is neither \<open>0x16\<close> nor \<open>0x24\<close> is tolerated (the parser stays in the
  sync section and the count goes on, one higher, instead of back to 0) provided that,
  with this byte counted, fewer than 8 consecutive bytes other than \<open>0x16\<close> and fewer than
  4 consecutive bad bytes have accumulated. In particular, from any state of the sync
  section with no payload active, the five error-free bytes \<open>0x16 0x16 0x16 X 0x24\<close> of one
  format leave the parser in the header section, for every byte \<open>X\<close>: with no header byte
  read yet, or, when \<open>X\<close> itself is \<open>0x24\<close> and so completes the sync, with the last byte
  read as the first header byte.
\<close>

theorem sync_tolerance:
  "(m_section_type p = ST_SYNC \<and> \<not> m_payload_active p \<and> 3 \<le> m_section_offs p \<and>
    byte b \<noteq> 0x16 \<and> byte b \<noteq> 0x24 \<and>
    m_consecutive_non_16 p + 1 < 8 \<and>
    (if sync_error b \<or> parity_error b then m_consecutive_bad_bytes p + 1 else 0) < 4 \<longrightarrow>
    (\<exists>p'. PutByte b p = Some p' \<and> m_section_type p' = ST_SYNC \<and>
          m_section_offs p' = m_section_offs p + 1 \<and>
          m_consecutive_non_16 p' = m_consecutive_non_16 p + 1 \<and>
          m_consecutive_bad_bytes p' =
            (if sync_error b \<or> parity_error b then m_consecutive_bad_bytes p + 1 else 0))) \<and>
   (m_section_type q = ST_SYNC \<and> \<not> m_payload_active q \<and> 0 \<le> m_section_offs q \<longrightarrow>
    (\<exists>q'. PutBytes [clean_byte t1 s 0x16, clean_byte t2 s 0x16, clean_byte t3 s 0x16,
                    clean_byte t4 s X, clean_byte t5 s 0x24] q = Some q' \<and>
          m_section_type q' = ST_HEADER \<and>
          m_section_offs q' = (if X = 0x24 then 1 else 0)))"
proof (intro conjI impI)
  assume a: "m_section_type p = ST_SYNC \<and> \<not> m_payload_active p \<and> 3 \<le> m_section_offs p \<and>
    byte b \<noteq> 0x16 \<and> byte b \<noteq> 0x24 \<and>
    m_consecutive_non_16 p + 1 < 8 \<and>
    (if sync_error b \<or> parity_error b then m_consecutive_bad_bytes p + 1 else 0) < 4"
  then have i: "m_section_type p = ST_SYNC" "\<not> m_payload_active p" by simp_all
  from PutByte_idle_fields [OF i, of b] a
  show "\<exists>p'. PutByte b p = Some p' \<and> m_section_type p' = ST_SYNC \<and>
          m_section_offs p' = m_section_offs p + 1 \<and>
          m_consecutive_non_16 p' = m_consecutive_non_16 p + 1 \<and>
          m_consecutive_bad_bytes p' =
            (if sync_error b \<or> parity_error b then m_consecutive_bad_bytes p + 1 else 0)"
    by auto
next
  assume "m_section_type q = ST_SYNC \<and> \<not> m_payload_active q \<and> 0 \<le> m_section_offs q"
  then show "\<exists>q'. PutBytes [clean_byte t1 s 0x16, clean_byte t2 s 0x16, clean_byte t3 s 0x16,
                    clean_byte t4 s X, clean_byte t5 s 0x24] q = Some q' \<and>
          m_section_type q' = ST_HEADER \<and>
          m_section_offs q' = (if X = 0x24 then 1 else 0)"
    using sync_sequence [of q t1 s t2 t3 t4 X t5] by simp
qed


theorem sync_tolerance_witness:
  "\<exists>p. PutBytes (map (clean_byte 0 False) [0x16, 0x16, 0x16]) new_TapeParser = Some p \<and>
       m_section_type p = ST_SYNC \<and> \<not> m_payload_active p \<and> 3 \<le> m_section_offs p \<and>
       byte (clean_byte 1 False 0x41) \<noteq> 0x16 \<and> byte (clean_byte 1 False 0x41) \<noteq> 0x24 \<and>
       m_consecutive_non_16 p + 1 < 8 \<and> m_consecutive_bad_bytes p = 0 \<and>
       (\<exists>p'. PutByte (clean_byte 1 False 0x41) p = Some p' \<and> m_section_type p' = ST_SYNC \<and>
             m_section_offs p' = 4) \<and>
       m_section_type new_TapeParser = ST_SYNC \<and> \<not> m_payload_active new_TapeParser \<and>
       0 \<le> m_section_offs new_TapeParser \<and>
       (\<exists>q'. PutBytes [clean_byte 0 False 0x16, clean_byte 0 False 0x16, clean_byte 0 False 0x16,
                       clean_byte 1 False 0x41, clean_byte 2 False 0x24] new_TapeParser = Some q' \<and>
             m_section_type q' = ST_HEADER \<and> m_section_offs q' = 0)"
proof -
  have "\<exists>p. PutBytes (map (clean_byte 0 False) [0x16, 0x16, 0x16]) new_TapeParser = Some p \<and>
       m_section_type p = ST_SYNC \<and> \<not> m_payload_active p \<and> m_section_offs p = 3 \<and>
       m_consecutive_non_16 p = 0 \<and> m_consecutive_bad_bytes p = 0"
    by (simp add: parser_eval)
  then obtain p where p:
    "PutBytes (map (clean_byte 0 False) [0x16, 0x16, 0x16]) new_TapeParser = Some p"
    "m_section_type p = ST_SYNC" "\<not> m_payload_active p" "m_section_offs p = 3"
    "m_consecutive_non_16 p = 0" "m_consecutive_bad_bytes p = 0"
    by blast
  have b: "byte (clean_byte 1 False 0x41) \<noteq> 0x16" "byte (clean_byte 1 False 0x41) \<noteq> 0x24"
    "\<not> sync_error (clean_byte 1 False 0x41)" "\<not> parity_error (clean_byte 1 False 0x41)"
    by (simp_all add: clean_byte_def)
  have n: "m_section_type new_TapeParser = ST_SYNC" "\<not> m_payload_active new_TapeParser"
    "0 \<le> m_section_offs new_TapeParser"
    by (simp_all add: new_TapeParser_def)
  from sync_tolerance [of p "clean_byte 1 False 0x41" new_TapeParser 0 False 0 0 1 "0x41" 2] p b n
  have "(\<exists>p'. PutByte (clean_byte 1 False 0x41) p = Some p' \<and> m_section_type p' = ST_SYNC \<and>
             m_section_offs p' = m_section_offs p + 1 \<and>
             m_consecutive_non_16 p' = m_consecutive_non_16 p + 1 \<and>
             m_consecutive_bad_bytes p' =
               (if sync_error (clean_byte 1 False 0x41) \<or> parity_error (clean_byte 1 False 0x41)
                then m_consecutive_bad_bytes p + 1 else 0)) \<and>
        (\<exists>q'. PutBytes [clean_byte 0 False 0x16, clean_byte 0 False 0x16, clean_byte 0 False 0x16,
                       clean_byte 1 False 0x41, clean_byte 2 False 0x24] new_TapeParser = Some q' \<and>
             m_section_type q' = ST_HEADER \<and>
             m_section_offs q' = (if (0x41 :: 8 word) = 0x24 then 1 else 0))"
    by (simp del: PutBytes.simps)
  then have "(\<exists>p'. PutByte (clean_byte 1 False 0x41) p = Some p' \<and> m_section_type p' = ST_SYNC \<and>
             m_section_offs p' = 4) \<and>
        (\<exists>q'. PutBytes [clean_byte 0 False 0x16, clean_byte 0 False 0x16, clean_byte 0 False 0x16,
                       clean_byte 1 False 0x41, clean_byte 2 False 0x24] new_TapeParser = Some q' \<and>
             m_section_type q' = ST_HEADER \<and> m_section_offs q' = 0)"
    using p(4) by (auto simp del: PutBytes.simps)
  with p b n show ?thesis by (auto simp del: PutBytes.simps)
qed

subsection \<open>The assertions of the parser never fail\<close>

text \<open>
  The padding loop, run for the missing bytes of a payload that is short of its length,
  ends with the padded file; and every \<^verbatim>\<open>PutByte\<close> and \<^verbatim>\<open>Flush\<close> call on a parser that
  satisfies \<open>parser_inv\<close> returns, with a parser that satisfies it again. The new parser
  satisfies it, so no sequence of calls fails an assertion.
\<close>

lemma pad_payload_spec_aux:
  "0 \<le> m \<Longrightarrow> 0 \<le> offs \<Longrightarrow> offs + m \<le> payload_capacity \<Longrightarrow>
   pad_payload m offs f =
     Some (offs + m,
           f\<lparr> payload := (\<lambda>i. if offs \<le> i \<and> i < offs + m then 0xcd else payload f i),
              sync_errors := sync_errors f + m,
              parity_errors := parity_errors f + m \<rparr>)"
proof (induction m offs f rule: pad_payload.induct)
  case (1 m offs f)
  show ?case
  proof (cases "m = 0")
    case True
    have "(\<lambda>i. if offs \<le> i \<and> i < offs then 0xcd else payload f i) = payload f"
      by (auto simp add: fun_eq_iff)
    with True show ?thesis by (simp add: pad_payload.simps [of 0 offs f])
  next
    case False
    with "1.prems" have r: "0 \<le> m - 1" "0 \<le> offs + 1" "offs + 1 + (m - 1) \<le> payload_capacity"
      and o: "0 \<le> offs \<and> offs < payload_capacity"
      by simp_all
    have o': "\<not> \<not> (0 \<le> offs \<and> offs < payload_capacity)" using o by simp
    note ih = "1.IH" [OF False o' r]
    have m: "1 \<le> m" using False "1.prems" by simp
    let ?f1 = "f\<lparr> payload := (payload f)(offs := 0xcd),
                   sync_errors := sync_errors f + 1,
                   parity_errors := parity_errors f + 1 \<rparr>"
    have eq: "?f1\<lparr> payload := (\<lambda>i. if offs + 1 \<le> i \<and> i < offs + 1 + (m - 1) then 0xcd
                                  else payload ?f1 i),
                  sync_errors := sync_errors ?f1 + (m - 1),
                  parity_errors := parity_errors ?f1 + (m - 1) \<rparr> =
              f\<lparr> payload := (\<lambda>i. if offs \<le> i \<and> i < offs + m then 0xcd else payload f i),
                 sync_errors := sync_errors f + m,
                 parity_errors := parity_errors f + m \<rparr>"
      by (rule TapeFile.equality) (use m in \<open>auto simp add: fun_eq_iff\<close>)
    have "pad_payload m offs f = pad_payload (m - 1) (offs + 1) ?f1"
      using False o by (simp add: pad_payload.simps [of m offs f])
    also note ih
    finally show ?thesis unfolding eq by simp
  qed
qed

lemma pad_payload_spec:
  assumes "0 \<le> offs" and "offs \<le> len f" and "len f \<le> payload_capacity"
  shows "pad_payload (len f - offs) offs f = Some (len f, padded_file offs f)"
  using pad_payload_spec_aux [of "len f - offs" offs f] assms
  by (simp add: padded_file_def)


lemma name_terminated_name: "name f = name g \<Longrightarrow> name_terminated f = name_terminated g"
  by (simp add: name_terminated_def)

lemma name_terminated_padded: "name_terminated (padded_file offs f) = name_terminated f"
  by (rule name_terminated_name) (simp add: padded_file_def)

lemma name_terminated_count_errors: "name_terminated (count_errors b f) = name_terminated f"
  by (rule name_terminated_name) (simp add: count_errors_def)

lemma FlushPayload_active:
  assumes "m_payload_active p" and "0 \<le> m_payload_offs p"
    and "m_payload_offs p \<le> len (m_payload_file p)"
    and "len (m_payload_file p) \<le> payload_capacity"
  shows "FlushPayload p =
           Some (p\<lparr> m_payload_offs := len (m_payload_file p),
                    m_payload_file := padded_file (m_payload_offs p) (m_payload_file p),
                    on_file := on_file p @ [padded_file (m_payload_offs p) (m_payload_file p)],
                    m_payload_active := False \<rparr>)"
  using assms pad_payload_spec [OF assms(2,3,4)]
  by (simp add: FlushPayload_def OnFile_def)

lemma FlushPayload_inactive: "\<not> m_payload_active p \<Longrightarrow> FlushPayload p = Some p"
  by (simp add: FlushPayload_def)

lemma FlushPayload_inv:
  assumes "parser_inv p"
  shows "\<exists>p'. FlushPayload p = Some p' \<and> parser_inv p' \<and> \<not> m_payload_active p' \<and>
              m_section_type p' = m_section_type p \<and> m_section_offs p' = m_section_offs p \<and>
              m_scout_file p' = m_scout_file p"
proof (cases "m_payload_active p")
  case True
  with assms have a: "0 \<le> m_payload_offs p" "m_payload_offs p \<le> len (m_payload_file p)"
    "len (m_payload_file p) \<le> payload_capacity"
    by (simp_all add: parser_inv_def)
  show ?thesis
    unfolding FlushPayload_active [OF True a]
    using assms True by (simp add: parser_inv_def name_terminated_padded)
next
  case False
  with assms show ?thesis by (simp add: FlushPayload_inactive)
qed

lemma Reset_inv: "list_all name_terminated (on_file p) \<Longrightarrow> parser_inv (Reset p)"
  by (simp add: parser_inv_def Reset_def)

lemma PutByte_format_inv:
  assumes "parser_inv p"
  shows "\<exists>p'. PutByte_format b p = Some p' \<and> parser_inv p'"
proof (cases "m_slow p \<noteq> slow b \<and> \<not> IsIdle p")
  case True
  from FlushPayload_inv [OF assms] obtain q where q: "FlushPayload p = Some q" "parser_inv q"
    by blast
  then have "list_all name_terminated (on_file q)" by (simp add: parser_inv_def)
  then have "parser_inv (Reset q)" by (rule Reset_inv)
  then have "parser_inv ((Reset q)\<lparr> m_slow := slow b \<rparr>)" by (simp add: parser_inv_def)
  with True q show ?thesis by (simp add: PutByte_format_def Flush_def)
next
  case False
  have "parser_inv (p\<lparr> m_slow := slow b \<rparr>)" using assms by (simp add: parser_inv_def)
  with False assms show ?thesis by (auto simp add: PutByte_format_def)
qed

lemma PutByte_end_time_inv: "parser_inv p \<Longrightarrow> parser_inv (PutByte_end_time b p)"
  by (simp add: parser_inv_def PutByte_end_time_frame name_terminated_def)

lemma PutByte_counters_inv: "parser_inv p \<Longrightarrow> parser_inv (PutByte_counters b p)"
  by (simp add: parser_inv_def PutByte_counters_frame)

lemma PutByte_payload_inv:
  assumes "parser_inv p"
  shows "\<exists>p'. PutByte_payload b p = Some p' \<and> parser_inv p'"
proof (cases "m_payload_active p")
  case True
  let ?f = "count_errors b ((m_payload_file p)
                \<lparr> payload := (payload (m_payload_file p))(m_payload_offs p := byte b) \<rparr>)"
  have l: "len ?f = len (m_payload_file p)" by (simp add: count_errors_def)
  have n: "name_terminated ?f = name_terminated (m_payload_file p)"
    by (rule name_terminated_name) (simp add: count_errors_def)
  from assms True show ?thesis
    by (simp add: PutByte_payload_def Let_def OnFile_def parser_inv_def l n)
next
  case False
  with assms show ?thesis by (simp add: PutByte_payload_def)
qed


lemma FlushPayload_fields:
  assumes "m_payload_active p \<longrightarrow>
             0 \<le> m_payload_offs p \<and> m_payload_offs p \<le> len (m_payload_file p) \<and>
             len (m_payload_file p) \<le> payload_capacity"
  shows "\<exists>p'. FlushPayload p = Some p' \<and> \<not> m_payload_active p' \<and>
              m_section_type p' = m_section_type p \<and> m_section_offs p' = m_section_offs p \<and>
              m_scout_file p' = m_scout_file p \<and> m_slow p' = m_slow p \<and>
              on_file p' = on_file p @
                (if m_payload_active p
                 then [padded_file (m_payload_offs p) (m_payload_file p)] else [])"
proof (cases "m_payload_active p")
  case True
  with assms have a: "0 \<le> m_payload_offs p" "m_payload_offs p \<le> len (m_payload_file p)"
    "len (m_payload_file p) \<le> payload_capacity"
    by simp_all
  show ?thesis
    unfolding FlushPayload_active [OF True a] using True by simp
next
  case False
  then show ?thesis by (simp add: FlushPayload_inactive)
qed

lemma PutByte_sync_inv:
  assumes "parser_inv p" and "m_section_type p = ST_SYNC"
  shows "parser_inv (PutByte_sync b p)"
  using assms by (simp add: parser_inv_def PutByte_sync_def Let_def)

lemma PutByte_header_inv:
  assumes "parser_inv p" and "m_section_type p = ST_HEADER"
  shows "\<exists>p'. PutByte_header b p = Some p' \<and> parser_inv p'"
  using assms by (simp add: parser_inv_def PutByte_header_def Let_def)

lemma header_len_bounds: "1 \<le> header_len f \<and> header_len f \<le> 65536"
  using len_bounds_mod [of "uint (header_endaddr f) - uint (header_startaddr f)"]
  by (simp add: header_len_def int_and_ffff)

lemma PutByte_name_inv:
  assumes "parser_inv p" and "m_section_type p = ST_NAME"
  shows "\<exists>p'. PutByte_name b p = Some p' \<and> parser_inv p'"
proof -
  from assms have o: "0 \<le> m_section_offs p" "m_section_offs p < 17"
    by (simp_all add: parser_inv_def)
  let ?f = "count_errors b ((m_scout_file p)
              \<lparr> name := (name (m_scout_file p))(m_section_offs p := byte b) \<rparr>)"
  let ?p = "p\<lparr> m_section_offs := m_section_offs p + 1, m_scout_file := ?f \<rparr>"
  show ?thesis
  proof (cases "byte b = 0")
    case True
    let ?f' = "?f\<lparr> start_addr := header_startaddr ?f, end_addr := header_endaddr ?f,
                   len := header_len ?f, autorun := (header ?f 3 \<noteq> 0),
                   basic := (header ?f 2 = 0x00), file_slow := slow b \<rparr>"
    have pre: "m_payload_active (?p\<lparr> m_scout_file := ?f' \<rparr>) \<longrightarrow>
             0 \<le> m_payload_offs (?p\<lparr> m_scout_file := ?f' \<rparr>) \<and>
             m_payload_offs (?p\<lparr> m_scout_file := ?f' \<rparr>)
               \<le> len (m_payload_file (?p\<lparr> m_scout_file := ?f' \<rparr>)) \<and>
             len (m_payload_file (?p\<lparr> m_scout_file := ?f' \<rparr>)) \<le> payload_capacity"
      using assms(1) by (auto simp add: parser_inv_def)
    from FlushPayload_fields [OF pre] obtain q where
      q: "FlushPayload (?p\<lparr> m_scout_file := ?f' \<rparr>) = Some q"
         "m_scout_file q = ?f'"
         "on_file q = on_file p @
            (if m_payload_active p
             then [padded_file (m_payload_offs p) (m_payload_file p)] else [])"
      by auto
    have "name ?f' (m_section_offs p) = 0"
      using True by (simp add: count_errors_def)
    then have nt: "name_terminated ?f'"
      using o unfolding name_terminated_def by (intro bexI [of _ "m_section_offs p"]) simp_all
    have files: "list_all name_terminated (on_file q)"
      using assms(1) by (simp add: q(3) parser_inv_def name_terminated_padded)
    have "parser_inv (q\<lparr> m_payload_active := True, m_payload_offs := 0,
                         m_payload_file := m_scout_file q, m_section_type := ST_SYNC,
                         m_section_offs := 0 \<rparr>)"
      using files nt header_len_bounds [of ?f] by (simp add: parser_inv_def q(2))
    with True q(1) assms(2) o show ?thesis
      by (simp add: PutByte_name_def Let_def)
  next
    case False
    with assms o show ?thesis
      by (simp add: PutByte_name_def Let_def parser_inv_def)
  qed
qed

lemma PutByte_section_inv:
  assumes "parser_inv p"
  shows "\<exists>p'. PutByte_section b p = Some p' \<and> parser_inv p'"
proof -
  from assms consider "m_section_type p = ST_SYNC" | "m_section_type p = ST_HEADER"
    | "m_section_type p = ST_NAME"
    by (auto simp add: parser_inv_def)
  then show ?thesis
  proof cases
    case 1
    with PutByte_sync_inv [OF assms 1, of b] show ?thesis by (simp add: PutByte_section_def)
  next
    case 2
    with PutByte_header_inv [OF assms 2, of b] show ?thesis by (simp add: PutByte_section_def)
  next
    case 3
    with PutByte_name_inv [OF assms 3, of b] show ?thesis by (simp add: PutByte_section_def)
  qed
qed

lemma PutByte_inv:
  assumes "parser_inv p"
  shows "\<exists>p'. PutByte b p = Some p' \<and> parser_inv p'"
proof -
  from PutByte_format_inv [OF assms] obtain p1 where
    p1: "PutByte_format b p = Some p1" "parser_inv p1" by blast
  from PutByte_payload_inv [OF PutByte_end_time_inv [OF p1(2)]] obtain p2 where
    p2: "PutByte_payload b (PutByte_end_time b p1) = Some p2" "parser_inv p2" by blast
  from PutByte_section_inv [OF PutByte_counters_inv [OF p2(2)]] obtain p3 where
    p3: "PutByte_section b (PutByte_counters b p2) = Some p3" "parser_inv p3" by blast
  have "parser_inv (p3\<lparr> m_last_time := time b \<rparr>)"
    using p3(2) by (simp add: parser_inv_def)
  with p1(1) p2(1) p3(1) show ?thesis by (simp add: PutByte_def)
qed

lemma PutBytes_inv:
  "parser_inv p \<Longrightarrow> \<exists>p'. PutBytes bs p = Some p' \<and> parser_inv p'"
proof (induction bs arbitrary: p)
  case Nil
  then show ?case by simp
next
  case (Cons b bs)
  from PutByte_inv [OF Cons.prems] obtain p1 where p1: "PutByte b p = Some p1" "parser_inv p1"
    by blast
  from Cons.IH [OF p1(2)] p1(1) show ?case by simp
qed

lemma new_TapeParser_inv: "parser_inv new_TapeParser"
  by (simp add: parser_inv_def new_TapeParser_def)

lemma Flush_inv:
  assumes "parser_inv p"
  shows "\<exists>p'. Flush p = Some p' \<and> parser_inv p'"
proof -
  from FlushPayload_inv [OF assms] obtain q where q: "FlushPayload p = Some q" "parser_inv q"
    by blast
  then have "list_all name_terminated (on_file q)" by (simp add: parser_inv_def)
  then have "parser_inv (Reset q)" by (rule Reset_inv)
  with q(1) show ?thesis by (simp add: Flush_def)
qed

subsection \<open>The names of the files\<close>

lemma upto_0_16: "[0..16] = 0 # 1 # 2 # 3 # 4 # 5 # 6 # 7 # 8 # 9 # 10 # 11 # 12 # 13 # 14 # 15 # [16 :: int]"
  by (simp add: upto.simps)

lemma replicate_16: "replicate 16 x = [x, x, x, x] @ [x, x, x, x] @ [x, x, x, x] @ [x, x, x, x]"
  by (simp add: eval_nat_numeral)

text \<open>
  Claim C6 states that in every emitted file \<open>name[16]\<close> is 0 and the first zero byte of
  the name comes before index 16. An archive with a name of sixteen characters is
  accepted: the terminating zero is the seventeenth name byte, stored at index 16, and
  the file is emitted with its first zero byte at index 16, not before it.
\<close>

theorem name_first_zero_counterexample:
  "map_option (\<lambda>p. map (\<lambda>f. map (name f) [0..16]) (on_file p))
     (PutBytes (map (clean_byte 0 False)
        ([0x16, 0x16, 0x16, 0x24] @ [0, 0, 0, 0, 0x05, 0x01, 0x05, 0x01, 0] @
         replicate 16 0x41 @ [0, 0x99]))
        new_TapeParser)
   = Some [replicate 16 0x41 @ [0]]"
  by (simp add: parser_eval header_len_def header_endaddr_def
        header_startaddr_def upto_0_16 replicate_16)

text \<open>
  Nor is \<open>name[16]\<close> always 0: the seventeenth byte of a name that is too long is stored
  at index 16 before the file is rejected, and it stays there (the name buffer is only
  cleared by \<^verbatim>\<open>Reset\<close>) when the next file, with a short name, is emitted.
\<close>

lemma replicate_17: "replicate 17 x = x # replicate 16 x"
  by (simp add: eval_nat_numeral)

lemma name_guard_overwritten_example:
  "map_option (\<lambda>p. map (\<lambda>f. (name f 0, name f 1, name f 16)) (on_file p))
     (PutBytes (map (clean_byte 0 False)
        ([0x16, 0x16, 0x16, 0x24] @ [0, 0, 0, 0, 0x05, 0x01, 0x05, 0x01, 0] @
         replicate 17 0x41 @
         [0x16, 0x16, 0x16, 0x24] @ [0, 0, 0, 0, 0x05, 0x01, 0x05, 0x01, 0] @
         [0x42, 0, 0x99]))
        new_TapeParser)
   = Some [(0x42, 0, 0x41)]"
  by (simp add: parser_eval header_len_def header_endaddr_def
        header_startaddr_def replicate_16 replicate_17)

lemma PutByte_name_too_long:
  assumes "m_section_type q = ST_NAME" and "m_section_offs q = 16" and "byte b \<noteq> 0"
  shows "\<exists>q'. PutByte_name b q = Some q' \<and> on_file q' = on_file q \<and>
              m_payload_file q' = m_payload_file q \<and>
              m_payload_active q' = m_payload_active q \<and>
              m_payload_offs q' = m_payload_offs q \<and>
              m_section_type q' = ST_SYNC \<and> m_section_offs q' = 0"
  using assms by (simp add: PutByte_name_def Let_def)

text \<open>
  Claim C6, amended. For every emitted file the name buffer holds a zero byte at some
  index from 0 to 16, so that the name is terminated within the 17 bytes (its first zero
  byte is at index 16 at the latest; \<open>name[16]\<close> itself need not be 0): this holds of all
  files produced by any sequence of \<^verbatim>\<open>PutByte\<close> calls on a new parser and by the
  \<^verbatim>\<open>Flush\<close> after them, and none of these calls fails. A name whose seventeenth byte
  is still not zero is rejected: the name branch returns to the sync section, emits
  nothing and leaves the payload in progress as it was.
\<close>

theorem emitted_names_terminated:
  "(\<exists>p. PutBytes bs new_TapeParser = Some p \<and> list_all name_terminated (on_file p) \<and>
        (\<exists>p'. Flush p = Some p' \<and> list_all name_terminated (on_file p'))) \<and>
   (m_section_type q = ST_NAME \<and> m_section_offs q = 16 \<and> byte b \<noteq> 0 \<longrightarrow>
      (\<exists>q'. PutByte_name b q = Some q' \<and> on_file q' = on_file q \<and>
            m_payload_file q' = m_payload_file q \<and>
            m_payload_active q' = m_payload_active q \<and>
            m_payload_offs q' = m_payload_offs q \<and>
            m_section_type q' = ST_SYNC \<and> m_section_offs q' = 0))"
proof -
  from PutBytes_inv [OF new_TapeParser_inv, of bs] obtain p where
    p: "PutBytes bs new_TapeParser = Some p" "parser_inv p" by blast
  from Flush_inv [OF p(2)] obtain p' where p': "Flush p = Some p'" "parser_inv p'" by blast
  from p(2) p'(2) have "list_all name_terminated (on_file p)"
    "list_all name_terminated (on_file p')"
    by (simp_all add: parser_inv_def)
  with p(1) p'(1) PutByte_name_too_long [of q b] show ?thesis by blast
qed


theorem emitted_names_terminated_witness:
  "(\<exists>p. PutBytes (map (clean_byte 0 False)
              ([0x16, 0x16, 0x16, 0x24] @ [0, 0, 0, 0, 0x05, 0x01, 0x05, 0x01, 0] @
               replicate 16 0x41 @ [0, 0x99])) new_TapeParser = Some p \<and>
        length (on_file p) = 1 \<and> list_all name_terminated (on_file p)) \<and>
   (\<exists>q. PutBytes (map (clean_byte 0 False)
              ([0x16, 0x16, 0x16, 0x24] @ [0, 0, 0, 0, 0x05, 0x01, 0x05, 0x01, 0] @
               replicate 16 0x41)) new_TapeParser = Some q \<and>
        m_section_type q = ST_NAME \<and> m_section_offs q = 16 \<and>
        byte (clean_byte 0 False 0x41) \<noteq> 0 \<and>
        (\<exists>q'. PutByte_name (clean_byte 0 False 0x41) q = Some q' \<and> on_file q' = on_file q \<and>
              m_section_type q' = ST_SYNC \<and> m_section_offs q' = 0))"
proof -
  let ?bs = "map (clean_byte 0 False)
              ([0x16, 0x16, 0x16, 0x24] @ [0, 0, 0, 0, 0x05, 0x01, 0x05, 0x01, 0] @
               replicate 16 0x41 @ [0, 0x99])"
  have n: "map_option (\<lambda>p. length (on_file p)) (PutBytes ?bs new_TapeParser) = Some 1"
    by (simp add: parser_eval header_len_def header_endaddr_def header_startaddr_def
          replicate_16)
  have "\<exists>q. PutBytes (map (clean_byte 0 False)
              ([0x16, 0x16, 0x16, 0x24] @ [0, 0, 0, 0, 0x05, 0x01, 0x05, 0x01, 0] @
               replicate 16 0x41)) new_TapeParser = Some q \<and>
        m_section_type q = ST_NAME \<and> m_section_offs q = 16"
    by (simp add: parser_eval replicate_16)
  then obtain q where q: "PutBytes (map (clean_byte 0 False)
              ([0x16, 0x16, 0x16, 0x24] @ [0, 0, 0, 0, 0x05, 0x01, 0x05, 0x01, 0] @
               replicate 16 0x41)) new_TapeParser = Some q"
        "m_section_type q = ST_NAME" "m_section_offs q = 16"
    by blast
  have b: "byte (clean_byte 0 False 0x41) \<noteq> 0" by (simp add: clean_byte_def)
  note inst = emitted_names_terminated [of ?bs q "clean_byte 0 False 0x41"]
  from inst obtain p where p: "PutBytes ?bs new_TapeParser = Some p"
    "list_all name_terminated (on_file p)" by blast
  from n p(1) have l: "length (on_file p) = 1" by simp
  from inst q(2,3) b have "\<exists>q'. PutByte_name (clean_byte 0 False 0x41) q = Some q' \<and>
       on_file q' = on_file q \<and> m_section_type q' = ST_SYNC \<and> m_section_offs q' = 0"
    by blast
  with p l q b show ?thesis by blast
qed

subsection \<open>Payloads: completion and truncation\<close>













section \<open>The merger\<close>

lemmas decoder_eval =
  Open_def Open_peek0_def Open_peek1_def DecodeByte_def ReadByte_body_def ReadByte_pick_def
  ReadByte_detect_def backend0_first_def new_TapeDecoder_def

subsection \<open>ReadByte returns\<close>

text \<open>
  The assertions of the parser never fail under the merger, and the loop of \<open>ReadByte\<close>
  ends: on a decoder opened on finite back-end streams every call returns.
\<close>

lemma ReadByte_pick_ok:
  assumes "decoder_ok d" and "m_backend0_byte_ok d \<or> m_backend1_byte_ok d"
  shows "\<exists>b d1. ReadByte_pick d = Some (b, d1) \<and> decoder_ok d1 \<and> m_parser d1 = m_parser d"
proof (cases "backend0_first d")
  case True
  then obtain bs where bs: "m_backend0 d = Some bs"
    using assms(1) by (auto simp add: decoder_ok_def backend0_first_def)
  obtain ok buf' bs' where dec: "DecodeByte bs (m_backend0_byte d) = (ok, buf', bs')"
    by (cases "DecodeByte bs (m_backend0_byte d)") auto
  show ?thesis
    using True bs dec assms(1) by (simp add: ReadByte_pick_def decoder_ok_def)
next
  case False
  with assms(2) have ok1: "m_backend1_byte_ok d"
    by (auto simp add: backend0_first_def)
  then obtain bs where bs: "m_backend1 d = Some bs"
    using assms(1) by (auto simp add: decoder_ok_def)
  obtain ok buf' bs' where dec: "DecodeByte bs (m_backend1_byte d) = (ok, buf', bs')"
    by (cases "DecodeByte bs (m_backend1_byte d)") auto
  show ?thesis
    using False ok1 bs dec assms(1) by (simp add: ReadByte_pick_def decoder_ok_def)
qed

lemma ReadByte_body_ok:
  assumes "decoder_ok d" and "m_backend0_byte_ok d \<or> m_backend1_byte_ok d"
  shows "\<exists>b r d'. ReadByte_body d = Some (b, r, d') \<and> decoder_ok d'"
proof -
  from ReadByte_pick_ok [OF assms] obtain b d1 where
    pick: "ReadByte_pick d = Some (b, d1)" "decoder_ok d1" by blast
  let ?d2 = "ReadByte_detect b (IsIdle (m_parser d1)) d1"
  have ok2: "decoder_ok ?d2"
    using pick(2) by (simp add: decoder_ok_def ReadByte_detect_def)
  then have "parser_inv (m_parser ?d2)" by (simp add: decoder_ok_def)
  from PutByte_inv [OF this, of b] obtain q where
    q: "PutByte b (m_parser ?d2) = Some q" "parser_inv q" by blast
  have "decoder_ok (?d2\<lparr> m_parser := q \<rparr>)"
    using ok2 q(2) by (simp add: decoder_ok_def)
  with ok2 q(1) pick(1) show ?thesis
    by (auto simp add: ReadByte_body_def Let_def)
qed

lemma ReadByte_returns:
  "decoder_ok d \<Longrightarrow> \<exists>r b d'. ReadByte d buf = Some (r, b, d') \<and> decoder_ok d'"
proof (induction d buf rule: ReadByte.induct)
  case (1 d buf)
  show ?case
  proof (cases "m_backend0_byte_ok d \<or> m_backend1_byte_ok d")
    case True
    from ReadByte_body_ok [OF "1.prems" True] obtain b r d1 where
      body: "ReadByte_body d = Some (b, r, d1)" "decoder_ok d1" by blast
    show ?thesis
    proof (cases r)
      case True
      with body \<open>m_backend0_byte_ok d \<or> m_backend1_byte_ok d\<close> show ?thesis
        by (auto simp add: ReadByte.simps [of d buf])
    next
      case False
      from "1.IH" [OF \<open>m_backend0_byte_ok d \<or> m_backend1_byte_ok d\<close> body(1) refl refl _ body(2)]
        False
      obtain r' b' d' where "ReadByte d1 b = Some (r', b', d')" "decoder_ok d'" by auto
      with False body(1) \<open>m_backend0_byte_ok d \<or> m_backend1_byte_ok d\<close> show ?thesis
        by (simp add: ReadByte.simps [of d buf])
    qed
  next
    case False
    with "1.prems" show ?thesis by (auto simp add: ReadByte.simps [of d buf])
  qed
qed

lemma Open_decoder_ok:
  "parser_inv (m_parser d) \<Longrightarrow> decoder_ok (Open opt_fast opt_slow backend0 backend1 d)"
  by (cases backend0; cases backend1)
     (auto simp add: Open_def Open_peek0_def Open_peek1_def decoder_ok_def DecodeByte_def
        split: list.splits)

subsection \<open>Which bytes are fed to the parser and which are returned\<close>

text \<open>
  Claim C9 says that a byte whose format matches the selection is fed to the parser and
  returned to the caller. The source returns it only under a further condition,
  \<open>if ((!b->sync_error && !b->parity_error) || !idle)\<close>, commented "Do not return bytes with
  errors unless inside a file". A fast decoder reading one fast byte \<open>0x41\<close> with a parity error
  at time 7: the format matches, the parser receives the byte (its last time becomes 7 and its
  count of consecutive bad bytes goes from the reset value 100 to 101), but the byte is not
  returned: the loop goes on, finds both back-ends exhausted and \<open>ReadByte\<close> returns false.
\<close>

theorem ReadByte_not_returned_counterexample:
  "map_option (\<lambda>(r, b, d). (r, byte b, m_consecutive_bad_bytes (m_parser d), m_last_time (m_parser d),
                              m_backend0_byte_ok d))
     (ReadByte (Open True False
                  (Some [\<lparr> time = 7, slow = False, byte = 0x41, parity_error = True,
                           sync_error = False \<rparr>]) None new_TapeDecoder)
               (clean_byte 0 False 0))
   = Some (False, 0x41, 101, 7, False)"
  by (simp add: ReadByte.simps decoder_eval parser_eval)

lemma ReadByte_pick_frame:
  assumes "ReadByte_pick d = Some (b, d1)"
  shows "b = (if backend0_first d then m_backend0_byte d else m_backend1_byte d) \<and>
         m_parser d1 = m_parser d \<and> m_select_fast d1 = m_select_fast d \<and>
         m_select_slow d1 = m_select_slow d \<and>
         (m_backend0_byte_ok d \<or> m_backend1_byte_ok d)"
  using assms
  by (auto simp add: ReadByte_pick_def backend0_first_def Let_def
        split: if_splits option.splits prod.splits)

lemma ReadByte_unfold:
  assumes "ReadByte_body d = Some (b, returned, d')"
  shows "ReadByte d buf = (if returned then Some (True, b, d') else ReadByte d' b)"
proof -
  obtain b1 d1 where pick: "ReadByte_pick d = Some (b1, d1)"
    using assms by (cases "ReadByte_pick d") (auto simp add: ReadByte_body_def)
  from ReadByte_pick_frame [OF pick] have "m_backend0_byte_ok d \<or> m_backend1_byte_ok d"
    by simp
  with assms show ?thesis by (simp add: ReadByte.simps [of d buf])
qed

text \<open>
  Claim C9, amended. One pass of the loop of \<open>ReadByte\<close> takes the earlier of the peeked
  bytes, the first back-end winning a tie, and applies the format auto-detection: an
  error-free \<open>0x16\<close> seen while the parser is idle selects exactly its own format. If the byte's
  format is then selected, it is fed to the parser, and it is returned exactly when it has
  neither a sync nor a parity error or the parser was not idle before the byte. If the format is
  not selected, the parser is left untouched and the byte is not returned. A byte that is not
  returned is consumed and \<open>ReadByte\<close> continues with the next one.
\<close>

theorem ReadByte_selection:
  assumes "ReadByte_body d = Some (b, returned, d')"
  shows "b = (if backend0_first d then m_backend0_byte d else m_backend1_byte d) \<and>
         m_select_fast d' =
           (if byte b = 0x16 \<and> \<not> sync_error b \<and> \<not> parity_error b \<and> IsIdle (m_parser d)
            then \<not> slow b else m_select_fast d) \<and>
         m_select_slow d' =
           (if byte b = 0x16 \<and> \<not> sync_error b \<and> \<not> parity_error b \<and> IsIdle (m_parser d)
            then slow b else m_select_slow d) \<and>
         ((if slow b then m_select_slow d' else m_select_fast d') \<longrightarrow>
            PutByte b (m_parser d) = Some (m_parser d') \<and>
            (returned \<longleftrightarrow> (\<not> sync_error b \<and> \<not> parity_error b) \<or> \<not> IsIdle (m_parser d))) \<and>
         (\<not> (if slow b then m_select_slow d' else m_select_fast d') \<longrightarrow>
            m_parser d' = m_parser d \<and> \<not> returned) \<and>
         ReadByte d buf = (if returned then Some (True, b, d') else ReadByte d' b)"
proof -
  obtain b1 d1 where pick: "ReadByte_pick d = Some (b1, d1)"
    using assms by (cases "ReadByte_pick d") (auto simp add: ReadByte_body_def)
  from ReadByte_pick_frame [OF pick]
  have frb: "b1 = (if backend0_first d then m_backend0_byte d else m_backend1_byte d)"
    and fr: "m_parser d1 = m_parser d" "m_select_fast d1 = m_select_fast d"
      "m_select_slow d1 = m_select_slow d"
    by simp_all
  let ?d2 = "ReadByte_detect b1 (IsIdle (m_parser d1)) d1"
  have d2: "m_parser ?d2 = m_parser d"
    "m_select_fast ?d2 =
       (if byte b1 = 0x16 \<and> \<not> sync_error b1 \<and> \<not> parity_error b1 \<and> IsIdle (m_parser d)
        then \<not> slow b1 else m_select_fast d)"
    "m_select_slow ?d2 =
       (if byte b1 = 0x16 \<and> \<not> sync_error b1 \<and> \<not> parity_error b1 \<and> IsIdle (m_parser d)
        then slow b1 else m_select_slow d)"
    using fr by (simp_all add: ReadByte_detect_def)
  define sel where "sel = (if slow b1 then m_select_slow ?d2 else m_select_fast ?d2)"
  have body: "ReadByte_body d =
      (if sel
       then (case PutByte b1 (m_parser ?d2) of
               None \<Rightarrow> None
             | Some q \<Rightarrow>
                 Some (b1, (\<not> sync_error b1 \<and> \<not> parity_error b1) \<or> \<not> IsIdle (m_parser d1),
                       ?d2\<lparr> m_parser := q \<rparr>))
       else Some (b1, False, ?d2))"
    by (simp add: ReadByte_body_def pick Let_def sel_def)
  have sel': "sel = (if slow b1
                     then (if byte b1 = 0x16 \<and> \<not> sync_error b1 \<and> \<not> parity_error b1 \<and>
                              IsIdle (m_parser d) then slow b1 else m_select_slow d)
                     else (if byte b1 = 0x16 \<and> \<not> sync_error b1 \<and> \<not> parity_error b1 \<and>
                              IsIdle (m_parser d) then \<not> slow b1 else m_select_fast d))"
    unfolding sel_def d2 ..
  have unf: "ReadByte d buf = (if returned then Some (True, b, d') else ReadByte d' b)"
    by (rule ReadByte_unfold [OF assms])
  show ?thesis
  proof (cases sel)
    case True
    with assms body obtain q where q: "PutByte b1 (m_parser ?d2) = Some q" "b = b1"
      "returned = ((\<not> sync_error b1 \<and> \<not> parity_error b1) \<or> \<not> IsIdle (m_parser d1))"
      "d' = ?d2\<lparr> m_parser := q \<rparr>"
      by (auto split: option.splits)
    have selected: "(if slow b1 then m_select_slow d' else m_select_fast d') = True"
      using True unfolding sel_def q by simp
    have c2: "m_select_fast d' =
           (if byte b1 = 0x16 \<and> \<not> sync_error b1 \<and> \<not> parity_error b1 \<and> IsIdle (m_parser d)
            then \<not> slow b1 else m_select_fast d)"
      unfolding q(4) using d2(2) by simp
    have c3: "m_select_slow d' =
           (if byte b1 = 0x16 \<and> \<not> sync_error b1 \<and> \<not> parity_error b1 \<and> IsIdle (m_parser d)
            then slow b1 else m_select_slow d)"
      unfolding q(4) using d2(3) by simp
    have c4: "PutByte b1 (m_parser d) = Some (m_parser d')"
      using q(1) unfolding q(4) d2(1) by simp
    have c5: "returned \<longleftrightarrow> (\<not> sync_error b1 \<and> \<not> parity_error b1) \<or> \<not> IsIdle (m_parser d)"
      using q(3) unfolding fr(1) .
    show ?thesis
      unfolding q(2) selected using frb c2 c3 c4 c5 unf [unfolded q(2)] by blast
  next
    case False
    with assms body have q: "b = b1" "\<not> returned" "d' = ?d2"
      by auto
    have selected: "(if slow b1 then m_select_slow d' else m_select_fast d') = False"
      using False unfolding sel_def q by simp
    have c2: "m_select_fast d' =
           (if byte b1 = 0x16 \<and> \<not> sync_error b1 \<and> \<not> parity_error b1 \<and> IsIdle (m_parser d)
            then \<not> slow b1 else m_select_fast d)"
      unfolding q(3) using d2(2) by simp
    have c3: "m_select_slow d' =
           (if byte b1 = 0x16 \<and> \<not> sync_error b1 \<and> \<not> parity_error b1 \<and> IsIdle (m_parser d)
            then slow b1 else m_select_slow d)"
      unfolding q(3) using d2(3) by simp
    have c4: "m_parser d' = m_parser d"
      unfolding q(3) d2(1) ..
    show ?thesis
      unfolding q(1) selected using frb c2 c3 c4 q(2) unf [unfolded q(1)] by blast
  qed
qed

theorem ReadByte_selection_witness:
  "(\<exists>d'. ReadByte_body (Open True False (Some [clean_byte 1 False 0x16, clean_byte 2 False 0x41])
                            None new_TapeDecoder)
            = Some (clean_byte 1 False 0x16, True, d') \<and>
          m_select_fast d' \<and>
          PutByte (clean_byte 1 False 0x16)
            (m_parser (Open True False (Some [clean_byte 1 False 0x16, clean_byte 2 False 0x41])
                         None new_TapeDecoder)) = Some (m_parser d') \<and>
          ReadByte (Open True False (Some [clean_byte 1 False 0x16, clean_byte 2 False 0x41])
                      None new_TapeDecoder) (clean_byte 0 False 0)
            = Some (True, clean_byte 1 False 0x16, d')) \<and>
   (\<exists>d'. ReadByte_body (Open False True (Some [clean_byte 1 False 0x41]) None new_TapeDecoder)
            = Some (clean_byte 1 False 0x41, False, d') \<and>
          \<not> m_select_fast d' \<and>
          m_parser d' = m_parser (Open False True (Some [clean_byte 1 False 0x41]) None
                                    new_TapeDecoder) \<and>
          ReadByte (Open False True (Some [clean_byte 1 False 0x41]) None new_TapeDecoder)
                   (clean_byte 0 False 0)
            = ReadByte d' (clean_byte 1 False 0x41))"
proof -
  let ?D1 = "Open True False (Some [clean_byte 1 False 0x16, clean_byte 2 False 0x41])
               None new_TapeDecoder"
  let ?D2 = "Open False True (Some [clean_byte 1 False 0x41]) None new_TapeDecoder"
  have "\<exists>d'. ReadByte_body ?D1 = Some (clean_byte 1 False 0x16, True, d') \<and> m_select_fast d'"
    by (simp add: decoder_eval parser_eval)
  then obtain d1 where d1: "ReadByte_body ?D1 = Some (clean_byte 1 False 0x16, True, d1)"
    "m_select_fast d1" by blast
  have "\<exists>d'. ReadByte_body ?D2 = Some (clean_byte 1 False 0x41, False, d') \<and> \<not> m_select_fast d'"
    by (simp add: decoder_eval parser_eval)
  then obtain d2 where d2: "ReadByte_body ?D2 = Some (clean_byte 1 False 0x41, False, d2)"
    "\<not> m_select_fast d2" by blast
  have s: "\<not> slow (clean_byte 1 False 0x16)" "\<not> slow (clean_byte 1 False 0x41)"
    by (simp_all add: clean_byte_def)
  from ReadByte_selection [OF d1(1), of "clean_byte 0 False 0"] d1(2) s
  have a: "PutByte (clean_byte 1 False 0x16) (m_parser ?D1) = Some (m_parser d1)"
    "ReadByte ?D1 (clean_byte 0 False 0) = Some (True, clean_byte 1 False 0x16, d1)"
    by simp_all
  from ReadByte_selection [OF d2(1), of "clean_byte 0 False 0"] d2(2) s
  have b: "m_parser d2 = m_parser ?D2"
    "ReadByte ?D2 (clean_byte 0 False 0) = ReadByte d2 (clean_byte 1 False 0x41)"
    by simp_all
  from d1 a d2 b show ?thesis by blast
qed

subsection \<open>Times of the returned bytes\<close>

lemma backend_stream_DecodeByte:
  "DecodeByte bs buf = (ok, buf', bs') \<Longrightarrow> backend_stream ok buf' (Some bs') = bs"
  by (cases bs) (auto simp add: DecodeByte_def backend_stream_def)

lemma ReadByte_pick_sorted:
  assumes "ReadByte_pick d = Some (b, d1)" and "streams_sorted d"
  shows "streams_sorted d1 \<and> not_before (time b) d1 \<and> (not_before t d \<longrightarrow> t \<le> time b)"
proof (cases "backend0_first d")
  case True
  then obtain bs where bs: "m_backend0 d = Some bs"
    using assms(1) by (cases "m_backend0 d") (simp_all add: ReadByte_pick_def)
  obtain ok buf' bs' where dec: "DecodeByte bs (m_backend0_byte d) = (ok, buf', bs')"
    by (cases "DecodeByte bs (m_backend0_byte d)") auto
  have d1: "d1 = d\<lparr> m_backend0 := Some bs', m_backend0_byte := buf', m_backend0_byte_ok := ok \<rparr>"
    and b: "b = m_backend0_byte d"
    using assms(1) True bs dec by (simp_all add: ReadByte_pick_def)
  have s0: "backend_stream (m_backend0_byte_ok d1) (m_backend0_byte d1) (m_backend0 d1) = bs"
    using backend_stream_DecodeByte [OF dec] by (simp add: d1)
  have s1: "backend_stream (m_backend1_byte_ok d1) (m_backend1_byte d1) (m_backend1 d1) =
            backend_stream (m_backend1_byte_ok d) (m_backend1_byte d) (m_backend1 d)"
    by (simp add: d1)
  have old0: "backend_stream (m_backend0_byte_ok d) (m_backend0_byte d) (m_backend0 d) = b # bs"
    using True bs by (simp add: backend_stream_def backend0_first_def b)
  have first: "list_all (\<lambda>x. time b \<le> time x)
                 (backend_stream (m_backend1_byte_ok d) (m_backend1_byte d) (m_backend1 d))"
    using True assms(2)
    by (auto simp add: backend0_first_def streams_sorted_def backend_stream_def b list_all_iff
          split: option.splits) (meson order_trans)+
  show ?thesis
    unfolding streams_sorted_def not_before_def s0 s1
    using assms(2) first unfolding streams_sorted_def not_before_def old0
    by (auto simp add: list_all_iff)
next
  case False
  then have ok1: "m_backend1_byte_ok d"
    using assms(1) by (simp add: ReadByte_pick_def split: if_splits)
  then obtain bs where bs: "m_backend1 d = Some bs"
    using assms(1) False by (cases "m_backend1 d") (simp_all add: ReadByte_pick_def)
  obtain ok buf' bs' where dec: "DecodeByte bs (m_backend1_byte d) = (ok, buf', bs')"
    by (cases "DecodeByte bs (m_backend1_byte d)") auto
  have d1: "d1 = d\<lparr> m_backend1 := Some bs', m_backend1_byte := buf', m_backend1_byte_ok := ok \<rparr>"
    and b: "b = m_backend1_byte d"
    using assms(1) False ok1 bs dec by (simp_all add: ReadByte_pick_def)
  have s1: "backend_stream (m_backend1_byte_ok d1) (m_backend1_byte d1) (m_backend1 d1) = bs"
    using backend_stream_DecodeByte [OF dec] by (simp add: d1)
  have s0: "backend_stream (m_backend0_byte_ok d1) (m_backend0_byte d1) (m_backend0 d1) =
            backend_stream (m_backend0_byte_ok d) (m_backend0_byte d) (m_backend0 d)"
    by (simp add: d1)
  have old1: "backend_stream (m_backend1_byte_ok d) (m_backend1_byte d) (m_backend1 d) = b # bs"
    using ok1 bs by (simp add: backend_stream_def b)
  have first: "list_all (\<lambda>x. time b \<le> time x)
                 (backend_stream (m_backend0_byte_ok d) (m_backend0_byte d) (m_backend0 d))"
    using False ok1 assms(2)
    by (auto simp add: backend0_first_def streams_sorted_def backend_stream_def b list_all_iff
          split: option.splits) (meson order_trans less_imp_le not_le)+
  show ?thesis
    unfolding streams_sorted_def not_before_def s0 s1
    using assms(2) first unfolding streams_sorted_def not_before_def old1
    by (auto simp add: list_all_iff)
qed


lemma not_before_mono: "t \<le> t' \<Longrightarrow> not_before t' d \<Longrightarrow> not_before t d"
  by (auto simp add: not_before_def list_all_iff intro: order_trans)

lemma ReadByte_body_sorted:
  assumes "ReadByte_body d = Some (b, r, d')" and "streams_sorted d"
  shows "streams_sorted d' \<and> not_before (time b) d' \<and> (not_before t d \<longrightarrow> t \<le> time b)"
proof -
  obtain b1 d1 where pick: "ReadByte_pick d = Some (b1, d1)"
    using assms(1) by (cases "ReadByte_pick d") (auto simp add: ReadByte_body_def)
  have same: "b = b1 \<and> m_backend0 d' = m_backend0 d1 \<and> m_backend1 d' = m_backend1 d1 \<and>
        m_backend0_byte d' = m_backend0_byte d1 \<and> m_backend1_byte d' = m_backend1_byte d1 \<and>
        m_backend0_byte_ok d' = m_backend0_byte_ok d1 \<and>
        m_backend1_byte_ok d' = m_backend1_byte_ok d1"
    using assms(1) pick
    by (auto simp add: ReadByte_body_def ReadByte_detect_def Let_def
          split: if_splits option.splits)
  then have "streams_sorted d' = streams_sorted d1" "not_before (time b) d' = not_before (time b1) d1"
    by (simp_all add: streams_sorted_def not_before_def)
  with ReadByte_pick_sorted [OF pick assms(2), of t] same show ?thesis by simp
qed

lemma ReadByte_sorted:
  "ReadByte d buf = Some (True, b, d') \<Longrightarrow> streams_sorted d \<Longrightarrow>
   streams_sorted d' \<and> not_before (time b) d' \<and> (\<forall>t. not_before t d \<longrightarrow> t \<le> time b)"
proof (induction d buf rule: ReadByte.induct)
  case (1 d buf)
  from "1.prems"(1) have ok: "m_backend0_byte_ok d \<or> m_backend1_byte_ok d"
    by (auto simp add: ReadByte.simps [of d buf] split: if_splits)
  with "1.prems"(1) obtain b1 r d1 where body: "ReadByte_body d = Some (b1, r, d1)"
    by (cases "ReadByte_body d") (auto simp add: ReadByte.simps [of d buf])
  have s: "streams_sorted d1" "not_before (time b1) d1"
    "\<And>t. not_before t d \<Longrightarrow> t \<le> time b1"
    using ReadByte_body_sorted [OF body "1.prems"(2)] by simp_all
  show ?case
  proof (cases r)
    case True
    with "1.prems"(1) ok body have "b = b1" "d' = d1"
      by (simp_all add: ReadByte.simps [of d buf])
    with s show ?thesis by simp
  next
    case False
    with "1.prems"(1) ok body have rec: "ReadByte d1 b1 = Some (True, b, d')"
      by (simp add: ReadByte.simps [of d buf])
    from "1.IH" [OF ok body refl refl _ rec s(1)] False
    have ih: "streams_sorted d'" "not_before (time b) d'"
      "\<And>t. not_before t d1 \<Longrightarrow> t \<le> time b"
      by simp_all
    have "t \<le> time b" if "not_before t d" for t
    proof -
      from s(3) [OF that] s(2) have "not_before t d1" by (rule not_before_mono)
      then show ?thesis by (rule ih(3))
    qed
    with ih(1,2) show ?thesis by simp
  qed
qed

lemma Open_streams_sorted:
  assumes "sorted (map time bs0)" and "sorted (map time bs1)"
  shows "streams_sorted (Open opt_fast opt_slow (Some bs0) (Some bs1) d)"
proof -
  obtain ok0 buf0 rest0 where d0: "DecodeByte bs0 (m_backend0_byte d) = (ok0, buf0, rest0)"
    by (cases "DecodeByte bs0 (m_backend0_byte d)") auto
  obtain ok1 buf1 rest1 where d1: "DecodeByte bs1 (m_backend1_byte d) = (ok1, buf1, rest1)"
    by (cases "DecodeByte bs1 (m_backend1_byte d)") auto
  show ?thesis
    using assms backend_stream_DecodeByte [OF d0] backend_stream_DecodeByte [OF d1]
    by (simp add: Open_def Open_peek0_def Open_peek1_def d0 d1 streams_sorted_def)
qed

text \<open>
  Claim C3. If each back-end delivers its bytes with non-decreasing times, then of two bytes
  returned by successive calls of \<open>ReadByte\<close> the second is not earlier than the first. The
  back-ends stay ordered, so this holds for every later pair of calls as well.
\<close>

theorem ReadByte_monotone:
  assumes "streams_sorted d"
    and "ReadByte d buf = Some (True, b1, d1)"
    and "ReadByte d1 buf' = Some (True, b2, d2)"
  shows "time b1 \<le> time b2 \<and> streams_sorted d1 \<and> streams_sorted d2"
proof -
  from ReadByte_sorted [OF assms(2,1)] have s1: "streams_sorted d1" "not_before (time b1) d1"
    by simp_all
  from ReadByte_sorted [OF assms(3) s1(1)] s1(2) have "time b1 \<le> time b2" "streams_sorted d2"
    by simp_all
  with s1(1) show ?thesis by simp
qed

theorem ReadByte_monotone_witness:
  "streams_sorted (Open False False (Some [clean_byte 1 False 0x16, clean_byte 3 False 0x41])
                     (Some [clean_byte 2 True 0x16, clean_byte 4 True 0x16]) new_TapeDecoder) \<and>
   (\<exists>d1 d2.
      ReadByte (Open False False (Some [clean_byte 1 False 0x16, clean_byte 3 False 0x41])
                  (Some [clean_byte 2 True 0x16, clean_byte 4 True 0x16]) new_TapeDecoder)
               (clean_byte 0 False 0)
        = Some (True, clean_byte 1 False 0x16, d1) \<and>
      ReadByte d1 (clean_byte 1 False 0x16) = Some (True, clean_byte 2 True 0x16, d2) \<and>
      streams_sorted d2) \<and>
   time (clean_byte 1 False 0x16) \<le> time (clean_byte 2 True 0x16)"
proof -
  let ?D = "Open False False (Some [clean_byte 1 False 0x16, clean_byte 3 False 0x41])
              (Some [clean_byte 2 True 0x16, clean_byte 4 True 0x16]) new_TapeDecoder"
  have s: "streams_sorted ?D"
    by (rule Open_streams_sorted) (simp_all add: clean_byte_def)
  have "\<exists>d1 d2. ReadByte ?D (clean_byte 0 False 0) = Some (True, clean_byte 1 False 0x16, d1) \<and>
          ReadByte d1 (clean_byte 1 False 0x16) = Some (True, clean_byte 2 True 0x16, d2)"
    by (simp add: ReadByte.simps decoder_eval parser_eval)
  then obtain d1 d2 where
    r: "ReadByte ?D (clean_byte 0 False 0) = Some (True, clean_byte 1 False 0x16, d1)"
       "ReadByte d1 (clean_byte 1 False 0x16) = Some (True, clean_byte 2 True 0x16, d2)"
    by blast
  from ReadByte_monotone [OF s r] s r show ?thesis by blast
qed

end
